theory Spec2Isabelle
  imports Main "HOL-Library.Multiset"
begin

section \<open>Data model of \<open>statetrans.py\<close>\<close>

text \<open>
  A state is a tuple of basis strings, a path is a tuple of transition names, a
  transition is a function from states to states. The transition table is a Python
  \<open>dict\<close>, iterated in insertion order by \<open>transitions.items()\<close>: it is an association
  list here, and a table that is a real \<open>dict\<close> has distinct keys.
\<close>

type_synonym state = "string list"
type_synonym transition = "state \<Rightarrow> state"
type_synonym path = "string list"
type_synonym transitions = "(string \<times> transition) list"

text \<open>The exceptions the modelled code raises.\<close>

datatype error = IndexError | RuntimeError string

text \<open>Class \<open>heapnode\<close>: the fields \<open>state\<close>, \<open>path\<close> and \<open>cost\<close>.\<close>

record heapnode =
  node_state :: state
  node_path :: path
  node_cost :: int

text \<open>
  \<open>heapnode.__lt__\<close>, the only comparison \<open>heapq\<close> calls (\<open>__eq__\<close> and \<open>__gt__\<close> compare
  the costs too and are never called).
\<close>

definition lt :: "heapnode \<Rightarrow> heapnode \<Rightarrow> bool" where
  "lt self other = (node_cost self < node_cost other)"

section \<open>The standard library's \<open>heapq\<close>\<close>

text \<open>
  \<open>heapq\<close> keeps a binary heap in a list, the children of index \<open>k\<close> at \<open>2*k+1\<close> and
  \<open>2*k+2\<close>. The functions below follow \<open>Lib/heapq.py\<close> of CPython statement by
  statement; every index they read is inside the list whenever the position they are
  called with is.
\<close>

text \<open>
  \<open>_siftdown(heap, startpos, pos)\<close>: \<open>newitem = heap[pos]\<close>, then parents are moved down
  along the way to the root until \<open>newitem\<close> fits.
\<close>

function siftdown_loop :: "heapnode list \<Rightarrow> nat \<Rightarrow> nat \<Rightarrow> heapnode \<Rightarrow> heapnode list" where
  "siftdown_loop heap startpos pos newitem =
     (if pos > startpos then
        (let parentpos = (pos - 1) div 2;
             parent = heap ! parentpos
         in if lt newitem parent
            then siftdown_loop (heap[pos := parent]) startpos parentpos newitem
            else heap[pos := newitem])
      else heap[pos := newitem])"
  by pat_completeness auto
termination
  by (relation "measure (\<lambda>(heap, startpos, pos, newitem). pos)") auto

declare siftdown_loop.simps [simp del]

definition siftdown :: "heapnode list \<Rightarrow> nat \<Rightarrow> nat \<Rightarrow> heapnode list" where
  "siftdown heap startpos pos = siftdown_loop heap startpos pos (heap ! pos)"

text \<open>\<open>heappush(heap, item)\<close>: append, then \<open>_siftdown(heap, 0, len(heap)-1)\<close>.\<close>

definition heappush :: "heapnode list \<Rightarrow> heapnode \<Rightarrow> heapnode list" where
  "heappush heap item = siftdown (heap @ [item]) 0 (length (heap @ [item]) - 1)"

text \<open>
  The first loop of \<open>_siftup(heap, pos)\<close>: the smaller child is moved up until a leaf is
  reached; the result is the list and the position of the leaf left empty.
\<close>

function siftup_loop :: "heapnode list \<Rightarrow> nat \<Rightarrow> nat \<Rightarrow> heapnode list \<times> nat" where
  "siftup_loop heap endpos pos =
     (let childpos = 2 * pos + 1
      in if childpos < endpos then
           (let rightpos = childpos + 1;
                childpos = (if rightpos < endpos \<and> \<not> lt (heap ! childpos) (heap ! rightpos)
                            then rightpos else childpos)
            in siftup_loop (heap[pos := heap ! childpos]) endpos childpos)
         else (heap, pos))"
  by pat_completeness auto
termination
  by (relation "measure (\<lambda>(heap, endpos, pos). endpos - pos)") (auto simp: Let_def)

declare siftup_loop.simps [simp del]

definition siftup :: "heapnode list \<Rightarrow> nat \<Rightarrow> heapnode list" where
  "siftup heap pos =
     (let endpos = length heap;
          startpos = pos;
          newitem = heap ! pos
      in case siftup_loop heap endpos pos of
           (heap, pos) \<Rightarrow> siftdown (heap[pos := newitem]) startpos pos)"

text \<open>
  \<open>heappop(heap)\<close>: \<open>heap.pop()\<close> raises \<open>IndexError\<close> on the empty list; otherwise the
  last element replaces the root and is sifted, and the old root is returned.
\<close>

definition heappop :: "heapnode list \<Rightarrow> error + (heapnode \<times> heapnode list)" where
  "heappop heap =
     (if heap = [] then Inl IndexError
      else
        (let lastelt = last heap;
             heap = butlast heap
         in if heap \<noteq> [] then
              (let returnitem = heap ! 0;
                   heap = heap[0 := lastelt]
               in Inr (returnitem, siftup heap 0))
            else Inr (lastelt, heap)))"

section \<open>\<open>state_search_via_dijkstras\<close>\<close>

text \<open>
  The \<open>for\<close> loop over \<open>transitions.items()\<close> in the body of the search: \<open>visited\<close> and
  \<open>node\<close> are fixed, the frontier grows.
\<close>

fun expand ::
  "transitions \<Rightarrow> (path \<Rightarrow> int) \<Rightarrow> (state \<rightharpoonup> path) \<Rightarrow> heapnode \<Rightarrow> heapnode list \<Rightarrow> heapnode list"
where
  "expand [] cost visited node frontier = frontier"
| "expand ((name, transition) # rest) cost visited node frontier =
     (let new_state = transition (node_state node)
      in if new_state \<notin> dom visited then
           (let new_path = node_path node @ [name]
            in expand rest cost visited node
                 (heappush frontier
                    \<lparr>node_state = new_state, node_path = new_path, node_cost = cost new_path\<rparr>))
         else expand rest cost visited node frontier)"

text \<open>
  One pass through the \<open>while\<close> loop, guard included. \<open>Inl\<close> is the end of the call
  (the path returned, or the exception raised), \<open>Inr\<close> the \<open>visited\<close> dictionary and
  the frontier the next pass starts from.
\<close>

definition loop_body ::
  "transitions \<Rightarrow> (state \<Rightarrow> bool) \<Rightarrow> (path \<Rightarrow> int) \<Rightarrow> (state \<rightharpoonup> path) \<Rightarrow> heapnode list
     \<Rightarrow> (error + path) + ((state \<rightharpoonup> path) \<times> heapnode list)"
where
  "loop_body transitions success cost visited frontier =
     (if length frontier > 0 then
        (case heappop frontier of
           Inl e \<Rightarrow> Inl (Inl e)
         | Inr (node, frontier) \<Rightarrow>
             if node_state node \<in> dom visited then Inr (visited, frontier)
             else
               (let visited = visited(node_state node \<mapsto> node_path node)
                in if success (node_state node) then Inl (Inr (node_path node))
                   else Inr (visited, expand transitions cost visited node frontier)))
      else Inl (Inl (RuntimeError ''No solution found.'')))"

text \<open>The \<open>while\<close> loop. It need not end: \<open>None\<close> is the call that never returns.\<close>

partial_function (option) dijkstra_loop ::
  "transitions \<Rightarrow> (state \<Rightarrow> bool) \<Rightarrow> (path \<Rightarrow> int) \<Rightarrow> (state \<rightharpoonup> path) \<Rightarrow> heapnode list
     \<Rightarrow> (error + path) option"
where
  "dijkstra_loop transitions success cost visited frontier =
     (case loop_body transitions success cost visited frontier of
        Inl result \<Rightarrow> Some result
      | Inr (visited, frontier) \<Rightarrow> dijkstra_loop transitions success cost visited frontier)"

definition state_search_via_dijkstras ::
  "state \<Rightarrow> transitions \<Rightarrow> (state \<Rightarrow> bool) \<Rightarrow> (path \<Rightarrow> int) \<Rightarrow> (error + path) option"
where
  "state_search_via_dijkstras init_state transitions success cost =
     (let visited = Map.empty;
          frontier = [];
          frontier = heappush frontier
                       \<lparr>node_state = init_state, node_path = [], node_cost = cost []\<rparr>
      in dijkstra_loop transitions success cost visited frontier)"

section \<open>The transitions of \<open>qutrit_ghz_example.py\<close>\<close>

text \<open>
  Python's built-ins as the two functions use them. \<open>str\<close> of an integer is its decimal
  numeral, with a minus sign when negative.
\<close>

definition digit_char :: "nat \<Rightarrow> char" where
  "digit_char d = ''0123456789'' ! d"

function str_nat :: "nat \<Rightarrow> string" where
  "str_nat n = (if n < 10 then [digit_char n] else str_nat (n div 10) @ [digit_char (n mod 10)])"
  by pat_completeness auto

termination
  by (relation "measure (\<lambda>n. n)") auto

declare str_nat.simps [simp del]

definition str_int :: "int \<Rightarrow> string" where
  "str_int i = (if i < 0 then CHR ''-'' # str_nat (nat (- i)) else str_nat (nat i))"

text \<open>
  A slice bound \<open>i\<close> of a sequence of length \<open>n\<close>: a negative bound counts from the end,
  and the result is clamped to \<open>0 .. n\<close>. Slices never raise.
\<close>

definition slice_bound :: "int \<Rightarrow> nat \<Rightarrow> nat" where
  "slice_bound i n = (if i < 0 then nat (max 0 (i + int n)) else min (nat i) n)"

text \<open>\<open>s[:j]\<close>, \<open>s[i:]\<close> and \<open>s[i:j]\<close>.\<close>

definition slice_to :: "string \<Rightarrow> int \<Rightarrow> string" where
  "slice_to s j = take (slice_bound j (length s)) s"

definition slice_from :: "string \<Rightarrow> int \<Rightarrow> string" where
  "slice_from s i = drop (slice_bound i (length s)) s"

definition slice :: "string \<Rightarrow> int \<Rightarrow> int \<Rightarrow> string" where
  "slice s i j =
     (let lo = slice_bound i (length s); hi = slice_bound j (length s)
      in take (hi - lo) (drop lo s))"

text \<open>
  \<open>s[i]\<close>: a string of one character; a negative index counts from the end, and an index
  outside the string raises \<open>IndexError\<close>.
\<close>

definition index :: "string \<Rightarrow> int \<Rightarrow> error + string" where
  "index s i =
     (let n = int (length s); j = (if i < 0 then i + n else i)
      in if 0 \<le> j \<and> j < n then Inr [s ! nat j] else Inl IndexError)"

text \<open>
  The body of the \<open>for\<close> loop of \<open>x\<close>: the new string for one basis string, or the
  \<open>IndexError\<close> of \<open>string[qubit]\<close>.
\<close>

definition x_body :: "string \<Rightarrow> int \<Rightarrow> string \<Rightarrow> string \<Rightarrow> error + string" where
  "x_body string qubit low_radix_str high_radix_str =
     (let new_string = slice_to string qubit
      in case index string qubit of
           Inl e \<Rightarrow> Inl e
         | Inr c \<Rightarrow>
             (let new_string =
                    (if c = high_radix_str then new_string @ low_radix_str
                     else if c = low_radix_str then new_string @ high_radix_str
                     else new_string @ c);
                  new_string = new_string @ slice_from string (qubit + 1)
              in Inr new_string))"

fun x_loop :: "state \<Rightarrow> int \<Rightarrow> string \<Rightarrow> string \<Rightarrow> string list \<Rightarrow> error + state" where
  "x_loop [] qubit low_radix_str high_radix_str new_state = Inr new_state"
| "x_loop (string # rest) qubit low_radix_str high_radix_str new_state =
     (case x_body string qubit low_radix_str high_radix_str of
        Inl e \<Rightarrow> Inl e
      | Inr new_string \<Rightarrow>
          x_loop rest qubit low_radix_str high_radix_str (new_state @ [new_string]))"

text \<open>
  The function \<open>x\<close> of the source (\<open>x_transition\<close> here, to leave \<open>x\<close> free as a variable name).
\<close>

definition x_transition :: "state \<Rightarrow> int \<Rightarrow> int \<Rightarrow> error + state" where
  "x_transition state qubit low_radix =
     (let new_state = [];
          high_radix = low_radix + 1;
          low_radix_str = str_int low_radix;
          high_radix_str = str_int high_radix
      in x_loop state qubit low_radix_str high_radix_str new_state)"

text \<open>The body of the \<open>for\<close> loop of \<open>subswap\<close>; slices only, so it never raises.\<close>

definition subswap_body :: "string \<Rightarrow> int \<Rightarrow> string \<Rightarrow> string \<Rightarrow> string" where
  "subswap_body string low_qubit low_radix_str high_radix_str =
     (let new_string = slice_to string low_qubit;
          new_string =
            (if slice string low_qubit (low_qubit + 2) = low_radix_str
             then new_string @ high_radix_str
             else if slice string low_qubit (low_qubit + 2) = high_radix_str
             then new_string @ low_radix_str
             else new_string @ slice string low_qubit (low_qubit + 2));
          new_string = new_string @ slice_from string (low_qubit + 2)
      in new_string)"

fun subswap_loop :: "state \<Rightarrow> int \<Rightarrow> string \<Rightarrow> string \<Rightarrow> string list \<Rightarrow> state" where
  "subswap_loop [] low_qubit low_radix_str high_radix_str new_state = new_state"
| "subswap_loop (string # rest) low_qubit low_radix_str high_radix_str new_state =
     subswap_loop rest low_qubit low_radix_str high_radix_str
       (new_state @ [subswap_body string low_qubit low_radix_str high_radix_str])"

definition subswap :: "state \<Rightarrow> int \<Rightarrow> int \<Rightarrow> state" where
  "subswap state low_qubit low_radix =
     (let new_state = [];
          high_radix = low_radix + 1;
          low_radix_str = str_int low_radix @ str_int low_radix;
          high_radix_str = str_int high_radix @ str_int high_radix
      in subswap_loop state low_qubit low_radix_str high_radix_str new_state)"

section \<open>Notions used to state and prove the properties\<close>

text \<open>The heap order of \<open>heapq\<close>: no element is smaller than its parent.\<close>

definition is_heap :: "heapnode list \<Rightarrow> bool" where
  "is_heap heap =
     (\<forall>i<length heap. 0 < i \<longrightarrow> node_cost (heap ! ((i - 1) div 2)) \<le> node_cost (heap ! i))"

text \<open>
  The nodes one run of the \<open>for\<close> loop pushes: one for every entry of the table whose
  target state is not in \<open>visited\<close>.
\<close>

definition pushed :: "transitions \<Rightarrow> (path \<Rightarrow> int) \<Rightarrow> (state \<rightharpoonup> path) \<Rightarrow> heapnode \<Rightarrow> heapnode set" where
  "pushed transitions cost visited node =
     {\<lparr>node_state = transition (node_state node), node_path = node_path node @ [name],
        node_cost = cost (node_path node @ [name])\<rparr> | name transition.
      (name, transition) \<in> set transitions \<and> transition (node_state node) \<notin> dom visited}"

text \<open>
  Applying the transitions a path names, in order, each looked up in the table; \<open>None\<close>
  when a name is not a key.
\<close>

fun apply_path :: "transitions \<Rightarrow> path \<Rightarrow> state \<Rightarrow> state option" where
  "apply_path transitions [] s = Some s"
| "apply_path transitions (t # p) s =
     (case map_of transitions t of
        None \<Rightarrow> None
      | Some transition \<Rightarrow> apply_path transitions p (transition s))"

text \<open>
  A frontier node is valid when its path leads from the initial state to its state and its
  cost is the cost of its path; the loop keeps every recorded path and every node valid.
\<close>

definition valid_node :: "transitions \<Rightarrow> state \<Rightarrow> (path \<Rightarrow> int) \<Rightarrow> heapnode \<Rightarrow> bool" where
  "valid_node transitions init_state cost node =
     (apply_path transitions (node_path node) init_state = Some (node_state node) \<and>
      node_cost node = cost (node_path node))"

definition inv_valid ::
  "transitions \<Rightarrow> state \<Rightarrow> (path \<Rightarrow> int) \<Rightarrow> (state \<rightharpoonup> path) \<Rightarrow> heapnode list \<Rightarrow> bool" where
  "inv_valid transitions init_state cost visited frontier =
     ((\<forall>s p. visited s = Some p \<longrightarrow> apply_path transitions p init_state = Some s) \<and>
      (\<forall>node \<in> set frontier. valid_node transitions init_state cost node))"

text \<open>
  The states reachable from \<open>init_state\<close> by applying transitions of the table any number
  of times.
\<close>

inductive_set reachable :: "transitions \<Rightarrow> state \<Rightarrow> state set"
  for transitions :: transitions and init_state :: state
where
  init: "init_state \<in> reachable transitions init_state"
| step: "s \<in> reachable transitions init_state \<Longrightarrow> (name, transition) \<in> set transitions \<Longrightarrow>
         transition s \<in> reachable transitions init_state"

text \<open>
  The configurations (the \<open>visited\<close> dictionary and the frontier at the head of the
  \<open>while\<close> loop) a search passes through after a given one.
\<close>

inductive loop_reaches ::
  "transitions \<Rightarrow> (state \<Rightarrow> bool) \<Rightarrow> (path \<Rightarrow> int) \<Rightarrow>
   (state \<rightharpoonup> path) \<times> heapnode list \<Rightarrow> (state \<rightharpoonup> path) \<times> heapnode list \<Rightarrow> bool"
  for transitions :: transitions and success :: "state \<Rightarrow> bool" and cost :: "path \<Rightarrow> int"
where
  start: "loop_reaches transitions success cost conf conf"
| pass: "loop_reaches transitions success cost conf (visited, frontier) \<Longrightarrow>
         loop_body transitions success cost visited frontier = Inr (visited', frontier') \<Longrightarrow>
         loop_reaches transitions success cost conf (visited', frontier')"

text \<open>
  What the loop keeps for optimality: the recorded paths and the frontier nodes are valid,
  the frontier is a heap, no recorded state satisfies \<open>success\<close> and its recorded path costs
  no more than any path to it, the initial state is recorded or waits in the frontier with
  the empty path, and for a recorded state with path \<open>p\<close> every one-transition extension
  \<open>p @ [name]\<close> either leads to a recorded state or waits in the frontier.
\<close>

definition inv_opt ::
  "transitions \<Rightarrow> state \<Rightarrow> (state \<Rightarrow> bool) \<Rightarrow> (path \<Rightarrow> int) \<Rightarrow> (state \<rightharpoonup> path) \<Rightarrow>
   heapnode list \<Rightarrow> bool" where
  "inv_opt transitions init_state success cost visited frontier =
     (inv_valid transitions init_state cost visited frontier \<and>
      is_heap frontier \<and>
      (\<forall>s p. visited s = Some p \<longrightarrow> \<not> success s \<and>
         (\<forall>q. apply_path transitions q init_state = Some s \<longrightarrow> cost p \<le> cost q)) \<and>
      (init_state \<in> dom visited \<or>
         (\<exists>node \<in> set frontier. node_state node = init_state \<and> node_path node = [])) \<and>
      (\<forall>s p name transition. visited s = Some p \<and> (name, transition) \<in> set transitions \<longrightarrow>
         transition s \<in> dom visited \<or>
         (\<exists>node \<in> set frontier. node_state node = transition s \<and> node_path node = p @ [name])))"

text \<open>
  An input on which the cost is monotone under extension and the returned path is not the
  cheapest: \<open>a\<close> and \<open>b\<close> both lead from \<open>A\<close> to \<open>S\<close>, \<open>c\<close> leads from \<open>S\<close> to the goal \<open>G\<close>;
  a path that starts with \<open>a\<close> costs 2 whatever follows, any other path costs 1 for its
  first transition and 4 for each later one.
\<close>

definition detour_transitions :: transitions where
  "detour_transitions =
     [(''a'', \<lambda>s. if s = [''A''] then [''S''] else s),
      (''b'', \<lambda>s. if s = [''A''] then [''S''] else s),
      (''c'', \<lambda>s. if s = [''S''] then [''G''] else s)]"

definition detour_cost :: "path \<Rightarrow> int" where
  "detour_cost p =
     (case p of [] \<Rightarrow> 0
      | t # rest \<Rightarrow> if t = ''a'' then 2 else 1 + 4 * int (length rest))"

section \<open>\<open>state_search_via_dijkstras\<close> with callbacks that raise\<close>

text \<open>
  The callbacks are Python callables: a call returns a value or raises, and \<open>statetrans.py\<close>
  has no \<open>try\<close> statement, so an exception raised by \<open>cost\<close>, \<open>success\<close> or a transition
  ends the call of \<open>state_search_via_dijkstras\<close> with that exception. The definitions of
  this section are those of the search above with callbacks of result type \<open>error + _\<close>
  (\<open>Inl\<close> the exception raised), each called where the source calls it: \<open>cost(())\<close> before
  the loop, \<open>success\<close> once the popped state is recorded, and for every entry of the table
  the transition and then, for a state not recorded yet, \<open>cost\<close> of the new path.
\<close>

type_synonym raising_transitions = "(string \<times> (state \<Rightarrow> error + state)) list"

fun expand_raising ::
  "raising_transitions \<Rightarrow> (path \<Rightarrow> error + int) \<Rightarrow> (state \<rightharpoonup> path) \<Rightarrow> heapnode \<Rightarrow>
   heapnode list \<Rightarrow> error + heapnode list"
where
  "expand_raising [] cost visited node frontier = Inr frontier"
| "expand_raising ((name, transition) # rest) cost visited node frontier =
     (case transition (node_state node) of
        Inl e \<Rightarrow> Inl e
      | Inr new_state \<Rightarrow>
          if new_state \<notin> dom visited then
            (let new_path = node_path node @ [name]
             in case cost new_path of
                  Inl e \<Rightarrow> Inl e
                | Inr c \<Rightarrow>
                    expand_raising rest cost visited node
                      (heappush frontier
                         \<lparr>node_state = new_state, node_path = new_path, node_cost = c\<rparr>))
          else expand_raising rest cost visited node frontier)"

definition loop_body_raising ::
  "raising_transitions \<Rightarrow> (state \<Rightarrow> error + bool) \<Rightarrow> (path \<Rightarrow> error + int) \<Rightarrow>
   (state \<rightharpoonup> path) \<Rightarrow> heapnode list
     \<Rightarrow> (error + path) + ((state \<rightharpoonup> path) \<times> heapnode list)"
where
  "loop_body_raising transitions success cost visited frontier =
     (if length frontier > 0 then
        (case heappop frontier of
           Inl e \<Rightarrow> Inl (Inl e)
         | Inr (node, frontier) \<Rightarrow>
             if node_state node \<in> dom visited then Inr (visited, frontier)
             else
               (let visited = visited(node_state node \<mapsto> node_path node)
                in case success (node_state node) of
                     Inl e \<Rightarrow> Inl (Inl e)
                   | Inr found \<Rightarrow>
                       if found then Inl (Inr (node_path node))
                       else
                         (case expand_raising transitions cost visited node frontier of
                            Inl e \<Rightarrow> Inl (Inl e)
                          | Inr frontier \<Rightarrow> Inr (visited, frontier))))
      else Inl (Inl (RuntimeError ''No solution found.'')))"

partial_function (option) dijkstra_loop_raising ::
  "raising_transitions \<Rightarrow> (state \<Rightarrow> error + bool) \<Rightarrow> (path \<Rightarrow> error + int) \<Rightarrow>
   (state \<rightharpoonup> path) \<Rightarrow> heapnode list \<Rightarrow> (error + path) option"
where
  "dijkstra_loop_raising transitions success cost visited frontier =
     (case loop_body_raising transitions success cost visited frontier of
        Inl result \<Rightarrow> Some result
      | Inr (visited, frontier) \<Rightarrow>
          dijkstra_loop_raising transitions success cost visited frontier)"

definition state_search_via_dijkstras_raising ::
  "state \<Rightarrow> raising_transitions \<Rightarrow> (state \<Rightarrow> error + bool) \<Rightarrow> (path \<Rightarrow> error + int)
     \<Rightarrow> (error + path) option"
where
  "state_search_via_dijkstras_raising init_state transitions success cost =
     (let visited = Map.empty;
          frontier = []
      in case cost [] of
           Inl e \<Rightarrow> Some (Inl e)
         | Inr c \<Rightarrow>
             (let frontier = heappush frontier
                               \<lparr>node_state = init_state, node_path = [], node_cost = c\<rparr>
              in dijkstra_loop_raising transitions success cost visited frontier))"

text \<open>
  The states reachable by transitions that return, and the exceptions the callbacks can
  raise.
\<close>

inductive_set reachable_raising :: "raising_transitions \<Rightarrow> state \<Rightarrow> state set"
  for transitions :: raising_transitions and init_state :: state
where
  init: "init_state \<in> reachable_raising transitions init_state"
| step: "s \<in> reachable_raising transitions init_state \<Longrightarrow> (name, transition) \<in> set transitions \<Longrightarrow>
         transition s = Inr s' \<Longrightarrow> s' \<in> reachable_raising transitions init_state"



section \<open>What \<open>heappush\<close> and \<open>heappop\<close> keep\<close>

lemma siftdown_loop_step:
  "startpos < pos \<Longrightarrow> lt newitem (heap ! ((pos - 1) div 2)) \<Longrightarrow>
   siftdown_loop heap startpos pos newitem =
   siftdown_loop (heap[pos := heap ! ((pos - 1) div 2)]) startpos ((pos - 1) div 2) newitem"
  by (subst siftdown_loop.simps) (simp add: Let_def)

lemma siftdown_loop_stop:
  "\<not> (startpos < pos \<and> lt newitem (heap ! ((pos - 1) div 2))) \<Longrightarrow>
   siftdown_loop heap startpos pos newitem = heap[pos := newitem]"
  by (subst siftdown_loop.simps) (auto simp add: Let_def)

lemma length_siftdown_loop: "length (siftdown_loop heap startpos pos newitem) = length heap"
proof (induction heap startpos pos newitem rule: siftdown_loop.induct)
  case (1 heap startpos pos newitem)
  show ?case
  proof (cases "startpos < pos \<and> lt newitem (heap ! ((pos - 1) div 2))")
    case True
    then show ?thesis
      using "1.IH"[OF _ refl refl] by (simp add: siftdown_loop_step)
  next
    case False
    show ?thesis by (simp add: siftdown_loop_stop[OF False])
  qed
qed

lemma mset_update_move:
  assumes "i < length xs" "j < length xs" "i \<noteq> j"
  shows "mset (xs[i := xs ! j, j := y]) = mset (xs[i := y])"
proof -
  have "mset (xs[i := xs ! j, j := y]) = add_mset y (mset (xs[i := xs ! j]) - {#xs ! j#})"
    using assms by (simp add: mset_update)
  also have "mset (xs[i := xs ! j]) = add_mset (xs ! j) (mset xs - {#xs ! i#})"
    using assms by (simp add: mset_update)
  finally show ?thesis using assms by (simp add: mset_update)
qed

lemma mset_siftdown_loop:
  "pos < length heap \<Longrightarrow>
   mset (siftdown_loop heap startpos pos newitem) = mset (heap[pos := newitem])"
proof (induction heap startpos pos newitem rule: siftdown_loop.induct)
  case (1 heap startpos pos newitem)
  let ?pp = "(pos - 1) div 2"
  show ?case
  proof (cases "startpos < pos \<and> lt newitem (heap ! ?pp)")
    case True
    have pp: "?pp < pos" using True by auto
    have "mset (siftdown_loop (heap[pos := heap ! ?pp]) startpos ?pp newitem)
          = mset (heap[pos := heap ! ?pp, ?pp := newitem])"
      using "1.IH"[OF _ refl refl] True pp "1.prems" by simp
    also have "\<dots> = mset (heap[pos := newitem])"
      using mset_update_move[of pos heap ?pp newitem] pp "1.prems" by simp
    finally show ?thesis
      using True by (simp add: siftdown_loop_step)
  next
    case False
    show ?thesis by (simp add: siftdown_loop_stop[OF False])
  qed
qed

lemma mset_heappush: "mset (heappush heap item) = add_mset item (mset heap)"
  by (simp add: heappush_def siftdown_def mset_siftdown_loop)

lemma length_heappush: "length (heappush heap item) = Suc (length heap)"
  by (simp add: heappush_def siftdown_def length_siftdown_loop)

lemma siftup_loop_stop:
  "\<not> 2 * pos + 1 < endpos \<Longrightarrow> siftup_loop heap endpos pos = (heap, pos)"
  by (subst siftup_loop.simps) (simp add: Let_def)

lemma siftup_loop_step:
  "2 * pos + 1 < endpos \<Longrightarrow>
   c = (if 2 * pos + 2 < endpos \<and> \<not> lt (heap ! (2 * pos + 1)) (heap ! (2 * pos + 2))
        then 2 * pos + 2 else 2 * pos + 1) \<Longrightarrow>
   siftup_loop heap endpos pos = siftup_loop (heap[pos := heap ! c]) endpos c"
  by (subst siftup_loop.simps) (simp add: Let_def)

lemma siftup_loop_props:
  "siftup_loop heap endpos pos = (heap', pos') \<Longrightarrow> endpos = length heap \<Longrightarrow>
   pos < length heap \<Longrightarrow>
   length heap' = length heap \<and> pos' < length heap \<and>
   mset (heap'[pos' := x]) = mset (heap[pos := x])"
proof (induction heap endpos pos arbitrary: heap' pos' rule: siftup_loop.induct)
  case (1 heap endpos pos)
  show ?case
  proof (cases "2 * pos + 1 < endpos")
    case True
    define c where "c = (if 2 * pos + 2 < endpos \<and>
        \<not> lt (heap ! (2 * pos + 1)) (heap ! (2 * pos + 2)) then 2 * pos + 2 else 2 * pos + 1)"
    have c: "c < length heap" "c \<noteq> pos" using True "1.prems"(2) by (auto simp: c_def)
    have eq: "siftup_loop (heap[pos := heap ! c]) endpos c = (heap', pos')"
      using "1.prems"(1) siftup_loop_step[OF True c_def] by simp
    have "length heap' = length (heap[pos := heap ! c]) \<and> pos' < length (heap[pos := heap ! c]) \<and>
      mset (heap'[pos' := x]) = mset ((heap[pos := heap ! c])[c := x])"
    proof (rule "1.IH"[OF refl True refl _ eq])
      show "c = (if 2 * pos + 1 + 1 < endpos \<and>
               \<not> lt (heap ! (2 * pos + 1)) (heap ! (2 * pos + 1 + 1))
            then 2 * pos + 1 + 1 else 2 * pos + 1)"
        by (simp add: c_def)
      show "endpos = length (heap[pos := heap ! c])" using "1.prems"(2) by simp
      show "c < length (heap[pos := heap ! c])" using c by simp
    qed
    then show ?thesis
      using mset_update_move[of pos heap c x] c "1.prems"(3) by simp
  next
    case False
    then show ?thesis using "1.prems" by (simp add: siftup_loop_stop)
  qed
qed

lemma mset_siftup: 
  assumes p: "pos < length heap"
  shows "mset (siftup heap pos) = mset heap"
proof -
  obtain heap' pos' where s: "siftup_loop heap (length heap) pos = (heap', pos')"
    by (cases "siftup_loop heap (length heap) pos")
  from siftup_loop_props[OF s refl p, of "heap ! pos"]
  have "length heap' = length heap" "pos' < length heap"
       "mset (heap'[pos' := heap ! pos]) = mset heap" by simp_all
  then show ?thesis
    using s by (simp add: siftup_def siftdown_def mset_siftdown_loop Let_def)
qed

lemma parent_less: "0 < k \<Longrightarrow> (k - 1) div 2 < (k::nat)"
  by auto

lemma is_heap_root_min:
  "is_heap heap \<Longrightarrow> i < length heap \<Longrightarrow> node_cost (heap ! 0) \<le> node_cost (heap ! i)"
proof (induction i rule: less_induct)
  case (less i)
  show ?case
  proof (cases "i = 0")
    case True
    then show ?thesis by simp
  next
    case False
    then have "(i - 1) div 2 < i" by auto
    moreover have "node_cost (heap ! ((i - 1) div 2)) \<le> node_cost (heap ! i)"
      using less.prems False by (simp add: is_heap_def)
    ultimately show ?thesis
      using less.IH[of "(i - 1) div 2"] less.prems by force
  qed
qed

lemma siftdown_loop_heap:
  assumes "pos < length heap"
    and "\<forall>i<length heap. 0 < i \<and> i \<noteq> pos \<longrightarrow>
           node_cost (heap ! ((i - 1) div 2)) \<le> node_cost (heap ! i)"
    and "\<forall>i<length heap. 0 < i \<and> (i - 1) div 2 = pos \<and> 0 < pos \<longrightarrow>
           node_cost (heap ! ((pos - 1) div 2)) \<le> node_cost (heap ! i)"
    and "node_cost x \<le> node_cost (heap ! pos)"
  shows "is_heap (siftdown_loop heap 0 pos x)"
  using assms
proof (induction pos arbitrary: heap rule: less_induct)
  case (less pos)
  let ?pp = "(pos - 1) div 2"
  let ?n = "length heap"
  note a = less.prems(2)[rule_format] and b = less.prems(3)[rule_format]
  show ?case
  proof (cases "0 < pos \<and> lt x (heap ! ?pp)")
    case True
    let ?h = "heap[pos := heap ! ?pp]"
    have pp: "?pp < pos" using True by auto
    have "is_heap (siftdown_loop ?h 0 ?pp x)"
    proof (rule less.IH[OF pp])
      show "?pp < length ?h" using pp less.prems(1) by simp
      show "node_cost x \<le> node_cost (?h ! ?pp)"
        using True pp by (simp add: lt_def)
      show "\<forall>i<length ?h. 0 < i \<and> i \<noteq> ?pp \<longrightarrow>
              node_cost (?h ! ((i - 1) div 2)) \<le> node_cost (?h ! i)"
      proof (intro allI impI)
        fix i assume i: "i < length ?h" "0 < i \<and> i \<noteq> ?pp"
        show "node_cost (?h ! ((i - 1) div 2)) \<le> node_cost (?h ! i)"
        proof (cases "i = pos")
          case True
          then show ?thesis using pp less.prems(1) by simp
        next
          case False
          show ?thesis
          proof (cases "(i - 1) div 2 = pos")
            case True
            with b[of i] i False pp less.prems(1) show ?thesis by simp
          next
            case False2: False
            with a[of i] i False show ?thesis by simp
          qed
        qed
      qed
      show "\<forall>i<length ?h. 0 < i \<and> (i - 1) div 2 = ?pp \<and> 0 < ?pp \<longrightarrow>
              node_cost (?h ! ((?pp - 1) div 2)) \<le> node_cost (?h ! i)"
      proof (intro allI impI)
        fix i assume i: "i < length ?h" "0 < i \<and> (i - 1) div 2 = ?pp \<and> 0 < ?pp"
        have gp: "(?pp - 1) div 2 < ?pp" by (rule parent_less) (use i in simp)
        have 1: "node_cost (heap ! ((?pp - 1) div 2)) \<le> node_cost (heap ! ?pp)"
          using a[of ?pp] i pp less.prems(1) by simp
        have 2: "i \<noteq> pos \<Longrightarrow> node_cost (heap ! ?pp) \<le> node_cost (heap ! i)"
          using a[of i] i by simp
        show "node_cost (?h ! ((?pp - 1) div 2)) \<le> node_cost (?h ! i)"
          using 1 2 gp pp i less.prems(1) by (cases "i = pos") auto
      qed
    qed
    then show ?thesis using True by (simp add: siftdown_loop_step)
  next
    case False
    have "is_heap (heap[pos := x])"
      unfolding is_heap_def
    proof (intro allI impI)
      fix i assume i: "i < length (heap[pos := x])" "0 < i"
      show "node_cost (heap[pos := x] ! ((i - 1) div 2)) \<le> node_cost (heap[pos := x] ! i)"
      proof (cases "i = pos")
        case True
        then show ?thesis using False i by (auto simp: lt_def)
      next
        case ne: False
        show ?thesis
        proof (cases "(i - 1) div 2 = pos")
          case True
          then show ?thesis using a[of i] i ne less.prems(1,4) by simp
        next
          case False
          then show ?thesis using a[of i] i ne by simp
        qed
      qed
    qed
    then show ?thesis by (simp add: siftdown_loop_stop[OF False])
  qed
qed

lemma is_heap_heappush: "is_heap heap \<Longrightarrow> is_heap (heappush heap item)"
proof -
  assume h: "is_heap heap"
  have "is_heap (siftdown_loop (heap @ [item]) 0 (length heap) item)"
  proof (rule siftdown_loop_heap)
    show "length heap < length (heap @ [item])" by simp
    show "node_cost item \<le> node_cost ((heap @ [item]) ! length heap)" by simp
    show "\<forall>i<length (heap @ [item]). 0 < i \<and> i \<noteq> length heap \<longrightarrow>
       node_cost ((heap @ [item]) ! ((i - 1) div 2)) \<le> node_cost ((heap @ [item]) ! i)"
    proof (intro allI impI)
      fix i assume i: "i < length (heap @ [item])" "0 < i \<and> i \<noteq> length heap"
      then have "i < length heap" "(i - 1) div 2 < length heap" by auto
      then show "node_cost ((heap @ [item]) ! ((i - 1) div 2)) \<le> node_cost ((heap @ [item]) ! i)"
        using h i by (simp add: nth_append is_heap_def)
    qed
    show "\<forall>i<length (heap @ [item]). 0 < i \<and> (i - 1) div 2 = length heap \<and> 0 < length heap \<longrightarrow>
       node_cost ((heap @ [item]) ! ((length heap - 1) div 2)) \<le> node_cost ((heap @ [item]) ! i)"
      by auto
  qed
  then show ?thesis by (simp add: heappush_def siftdown_def)
qed

lemma child_cases: "0 < i \<Longrightarrow> (i - 1) div 2 = pos \<Longrightarrow> i = 2 * pos + 1 \<or> i = 2 * pos + 2"
  for i pos :: nat
  by auto

lemma siftup_loop_heap:
  assumes "siftup_loop heap endpos pos = (heap', pos')"
    and "endpos = length heap"
    and "pos < length heap"
    and "\<forall>i<length heap. 0 < i \<and> (i - 1) div 2 \<noteq> pos \<longrightarrow>
           node_cost (heap ! ((i - 1) div 2)) \<le> node_cost (heap ! i)"
    and "\<forall>i<length heap. 0 < i \<and> (i - 1) div 2 = pos \<and> 0 < pos \<longrightarrow>
           node_cost (heap ! ((pos - 1) div 2)) \<le> node_cost (heap ! i)"
  shows "is_heap heap' \<and> \<not> 2 * pos' + 1 < length heap'"
  using assms
proof (induction heap endpos pos arbitrary: heap' pos' rule: siftup_loop.induct)
  case (1 heap endpos pos)
  note a = "1.prems"(4)[rule_format] and b = "1.prems"(5)[rule_format]
  show ?case
  proof (cases "2 * pos + 1 < endpos")
    case True
    define c where "c = (if 2 * pos + 2 < endpos \<and>
        \<not> lt (heap ! (2 * pos + 1)) (heap ! (2 * pos + 2)) then 2 * pos + 2 else 2 * pos + 1)"
    let ?h = "heap[pos := heap ! c]"
    have c: "c < length heap" "c \<noteq> pos" "pos < c" "0 < c" "(c - 1) div 2 = pos"
      using True "1.prems"(2) by (auto simp: c_def)
    have sib: "node_cost (heap ! c) \<le> node_cost (heap ! i)"
      if "i < length heap" "i = 2 * pos + 1 \<or> i = 2 * pos + 2" for i
      using that "1.prems"(2) by (auto simp: c_def lt_def split: if_splits)
    have eq: "siftup_loop ?h endpos c = (heap', pos')"
      using "1.prems"(1) siftup_loop_step[OF True c_def] by simp
    show ?thesis
    proof (rule "1.IH"[OF refl True refl _ eq])
      show "c = (if 2 * pos + 1 + 1 < endpos \<and>
               \<not> lt (heap ! (2 * pos + 1)) (heap ! (2 * pos + 1 + 1))
            then 2 * pos + 1 + 1 else 2 * pos + 1)"
        by (simp add: c_def)
      show "endpos = length ?h" using "1.prems"(2) by simp
      show "c < length ?h" using c by simp
      show "\<forall>i<length ?h. 0 < i \<and> (i - 1) div 2 \<noteq> c \<longrightarrow>
              node_cost (?h ! ((i - 1) div 2)) \<le> node_cost (?h ! i)"
      proof (intro allI impI)
        fix i assume i: "i < length ?h" "0 < i \<and> (i - 1) div 2 \<noteq> c"
        have pl: "(i - 1) div 2 < i" using i by (intro parent_less) simp
        show "node_cost (?h ! ((i - 1) div 2)) \<le> node_cost (?h ! i)"
        proof (cases "i = pos")
          case True
          then show ?thesis using b[of c] c i pl "1.prems"(3) by simp
        next
          case ne: False
          show ?thesis
          proof (cases "(i - 1) div 2 = pos")
            case True
            then have "i = 2 * pos + 1 \<or> i = 2 * pos + 2" using i child_cases by blast
            then show ?thesis using sib[of i] i ne True "1.prems"(3) by simp
          next
            case False
            then show ?thesis using a[of i] i ne by simp
          qed
        qed
      qed
      show "\<forall>i<length ?h. 0 < i \<and> (i - 1) div 2 = c \<and> 0 < c \<longrightarrow>
              node_cost (?h ! ((c - 1) div 2)) \<le> node_cost (?h ! i)"
      proof (intro allI impI)
        fix i assume i: "i < length ?h" "0 < i \<and> (i - 1) div 2 = c \<and> 0 < c"
        have "c < i" using i parent_less[of i] by simp
        then have "i \<noteq> pos" using c by simp
        then show "node_cost (?h ! ((c - 1) div 2)) \<le> node_cost (?h ! i)"
          using a[of i] i c "1.prems"(3) by simp
      qed
    qed
  next
    case False
    then have r: "heap' = heap" "pos' = pos" using "1.prems"(1) by (simp_all add: siftup_loop_stop)
    have "is_heap heap"
      unfolding is_heap_def
    proof (intro allI impI)
      fix i assume i: "i < length heap" "0 < i"
      have "(i - 1) div 2 \<noteq> pos"
      proof
        assume "(i - 1) div 2 = pos"
        then have "i = 2 * pos + 1 \<or> i = 2 * pos + 2" using i child_cases by blast
        then show False using False i "1.prems"(2) by auto
      qed
      then show "node_cost (heap ! ((i - 1) div 2)) \<le> node_cost (heap ! i)"
        using a[of i] i by simp
    qed
    then show ?thesis using r False "1.prems"(2) by simp
  qed
qed

lemma is_heap_butlast: "is_heap heap \<Longrightarrow> is_heap (butlast heap)"
proof -
  assume h: "is_heap heap"
  show ?thesis
    unfolding is_heap_def
  proof (intro allI impI)
    fix i assume i: "i < length (butlast heap)" "0 < i"
    have "(i - 1) div 2 < i" using i by (intro parent_less)
    then show "node_cost (butlast heap ! ((i - 1) div 2)) \<le> node_cost (butlast heap ! i)"
      using h i by (simp add: nth_butlast is_heap_def)
  qed
qed

lemma is_heap_siftup_root:
  assumes "is_heap b" "b \<noteq> []"
  shows "is_heap (siftup (b[0 := l]) 0)"
proof -
  let ?h = "b[0 := l]"
  have b0: "0 < length ?h" using assms(2) by simp
  obtain heap' pos' where s: "siftup_loop ?h (length ?h) 0 = (heap', pos')"
    by (cases "siftup_loop ?h (length ?h) 0")
  have leaf: "is_heap heap' \<and> \<not> 2 * pos' + 1 < length heap'"
  proof (rule siftup_loop_heap[OF s refl b0])
    show "\<forall>i<length ?h. 0 < i \<and> (i - 1) div 2 \<noteq> 0 \<longrightarrow>
       node_cost (?h ! ((i - 1) div 2)) \<le> node_cost (?h ! i)"
      using assms(1) by (simp add: is_heap_def)
    show "\<forall>i<length ?h. 0 < i \<and> (i - 1) div 2 = 0 \<and> (0::nat) < 0 \<longrightarrow>
       node_cost (?h ! ((0 - 1) div 2)) \<le> node_cost (?h ! i)"
      by simp
  qed
  from siftup_loop_props[OF s refl b0, of l]
  have len: "length heap' = length ?h" "pos' < length ?h" by simp_all
  let ?g = "heap'[pos' := l]"
  have "is_heap (siftdown_loop ?g 0 pos' l)"
  proof (rule siftdown_loop_heap)
    show "pos' < length ?g" using len by simp
    show "node_cost l \<le> node_cost (?g ! pos')" using len by simp
    show "\<forall>i<length ?g. 0 < i \<and> i \<noteq> pos' \<longrightarrow>
       node_cost (?g ! ((i - 1) div 2)) \<le> node_cost (?g ! i)"
    proof (intro allI impI)
      fix i assume i: "i < length ?g" "0 < i \<and> i \<noteq> pos'"
      have "(i - 1) div 2 \<noteq> pos'"
      proof
        assume "(i - 1) div 2 = pos'"
        then have "i = 2 * pos' + 1 \<or> i = 2 * pos' + 2" using i child_cases by blast
        then show False using leaf i by auto
      qed
      then show "node_cost (?g ! ((i - 1) div 2)) \<le> node_cost (?g ! i)"
        using leaf i by (simp add: is_heap_def)
    qed
    show "\<forall>i<length ?g. 0 < i \<and> (i - 1) div 2 = pos' \<and> 0 < pos' \<longrightarrow>
       node_cost (?g ! ((pos' - 1) div 2)) \<le> node_cost (?g ! i)"
    proof (intro allI impI)
      fix i assume i: "i < length ?g" "0 < i \<and> (i - 1) div 2 = pos' \<and> 0 < pos'"
      then have "i = 2 * pos' + 1 \<or> i = 2 * pos' + 2" using child_cases by blast
      then have False using leaf i by auto
      then show "node_cost (?g ! ((pos' - 1) div 2)) \<le> node_cost (?g ! i)" ..
    qed
  qed
  then show ?thesis
    using s b0 len by (simp add: siftup_def siftdown_def Let_def)
qed

lemma heappop_props:
  assumes "heap \<noteq> []"
  shows "\<exists>rest. heappop heap = Inr (heap ! 0, rest) \<and> mset heap = add_mset (heap ! 0) (mset rest) \<and>
           (is_heap heap \<longrightarrow> is_heap rest)"
proof (cases "butlast heap = []")
  case True
  then have "heap = [last heap]" using assms
    by (metis append_butlast_last_id append_Nil)
  then obtain x where "heap = [x]" by blast
  then show ?thesis by (simp add: heappop_def Let_def is_heap_def)
next
  case False
  define b where "b = butlast heap"
  define l where "l = last heap"
  have h: "heap = b @ [l]" using assms by (simp add: b_def l_def)
  have bne: "b \<noteq> []" using False b_def by simp
  then have b0: "0 < length b" by blast
  have root: "b ! 0 = heap ! 0" using b0 h by (simp add: nth_append)
  have "mset (siftup (b[0 := l]) 0) = mset (b[0 := l])"
    using b0 by (simp add: mset_siftup)
  also have "\<dots> = add_mset l (mset b - {#b ! 0#})"
    using b0 by (simp add: mset_update)
  finally have m: "add_mset (b ! 0) (mset (siftup (b[0 := l]) 0)) = mset heap"
    using b0 h by simp
  have "is_heap heap \<longrightarrow> is_heap (siftup (b[0 := l]) 0)"
    using is_heap_siftup_root[OF _ bne] is_heap_butlast[of heap] by (simp add: b_def)
  moreover have "heappop heap = Inr (heap ! 0, siftup (b[0 := l]) 0)"
    using assms False root by (simp add: heappop_def Let_def b_def l_def)
  ultimately show ?thesis using m root by simp
qed

section \<open>Trivial success\<close>

lemma heappush_Nil: "heappush [] item = [item]"
  by (simp add: heappush_def siftdown_def siftdown_loop.simps)

lemma heappop_single: "heappop [item] = Inr (item, [])"
  by (simp add: heappop_def)

text \<open>
  C4. If \<open>success init_state\<close> holds, the search returns the empty path, for any
  transition table and any cost function.
\<close>

theorem trivial_success:
  "success init_state \<Longrightarrow>
   state_search_via_dijkstras init_state transitions success cost = Some (Inr [])"
  by (simp add: state_search_via_dijkstras_def heappush_Nil dijkstra_loop.simps
      loop_body_def heappop_single)

theorem trivial_success_witness:
  "(\<lambda>s. s = [''00'']) [''00''] \<and>
   state_search_via_dijkstras [''00''] [(''id'', \<lambda>s. s)] (\<lambda>s. s = [''00''])
     (\<lambda>p. int (length p))
     = Some (Inr [])"
  using trivial_success [of "\<lambda>s. s = [''00'']" "[''00'']" "[(''id'', \<lambda>s. s)]" "\<lambda>p. int (length p)"]
  by simp

section \<open>One pass of the loop, and the loop\<close>

lemma set_heappush: "set (heappush heap item) = insert item (set heap)"
  using mset_heappush[of heap item] by (metis set_mset_add_mset_insert set_mset_mset)

lemma set_frontier_pop:
  "frontier \<noteq> [] \<Longrightarrow> mset frontier = add_mset (frontier ! 0) (mset rest) \<Longrightarrow>
   set frontier = insert (frontier ! 0) (set rest)"
  by (metis set_mset_mset set_mset_add_mset_insert)

lemma set_expand:
  "set (expand transitions cost visited node frontier) =
   set frontier \<union> pushed transitions cost visited node"
proof (induction transitions arbitrary: frontier)
  case Nil
  then show ?case by (simp add: pushed_def)
next
  case (Cons a transitions)
  obtain name transition where a: "a = (name, transition)" by (cases a)
  have "pushed (a # transitions) cost visited node =
        (if transition (node_state node) \<notin> dom visited
         then {\<lparr>node_state = transition (node_state node), node_path = node_path node @ [name],
                node_cost = cost (node_path node @ [name])\<rparr>} else {})
        \<union> pushed transitions cost visited node"
    unfolding pushed_def a by auto
  then show ?case using Cons.IH by (auto simp: a Let_def set_heappush)
qed

lemma is_heap_expand:
  "is_heap frontier \<Longrightarrow> is_heap (expand transitions cost visited node frontier)"
  by (induction transitions arbitrary: frontier) (auto simp: Let_def is_heap_heappush)

lemma loop_body_cases [consumes 0, case_names empty skip found expand]:
  obtains
    (empty) "frontier = []"
      "loop_body transitions success cost visited frontier =
         Inl (Inl (RuntimeError ''No solution found.''))"
  | (skip) rest where "frontier \<noteq> []" "mset frontier = add_mset (frontier ! 0) (mset rest)"
      "is_heap frontier \<longrightarrow> is_heap rest"
      "node_state (frontier ! 0) \<in> dom visited"
      "loop_body transitions success cost visited frontier = Inr (visited, rest)"
  | (found) "frontier \<noteq> []" "node_state (frontier ! 0) \<notin> dom visited"
      "success (node_state (frontier ! 0))"
      "loop_body transitions success cost visited frontier = Inl (Inr (node_path (frontier ! 0)))"
  | (expand) rest where "frontier \<noteq> []" "mset frontier = add_mset (frontier ! 0) (mset rest)"
      "is_heap frontier \<longrightarrow> is_heap rest"
      "node_state (frontier ! 0) \<notin> dom visited"
      "\<not> success (node_state (frontier ! 0))"
      "loop_body transitions success cost visited frontier =
         Inr (visited(node_state (frontier ! 0) \<mapsto> node_path (frontier ! 0)),
              expand transitions cost (visited(node_state (frontier ! 0) \<mapsto> node_path (frontier ! 0)))
                (frontier ! 0) rest)"
proof (cases "frontier = []")
  case True
  then show ?thesis using empty by (simp add: loop_body_def)
next
  case False
  from heappop_props[OF False] obtain rest where
    r: "heappop frontier = Inr (frontier ! 0, rest)"
       "mset frontier = add_mset (frontier ! 0) (mset rest)"
       "is_heap frontier \<longrightarrow> is_heap rest" by blast
  show ?thesis
  proof (cases "node_state (frontier ! 0) \<in> dom visited")
    case True
    show ?thesis
      by (rule skip[OF False r(2,3) True]) (use False r(1) True in \<open>simp add: loop_body_def\<close>)
  next
    case nv: False
    show ?thesis
    proof (cases "success (node_state (frontier ! 0))")
      case True
      show ?thesis
        by (rule found[OF False nv True]) (use False r(1) nv True in \<open>simp add: loop_body_def\<close>)
    next
      case ns: False
      show ?thesis
        by (rule expand[OF False r(2,3) nv ns])
           (use False r(1) nv ns in \<open>simp add: loop_body_def Let_def\<close>)
    qed
  qed
qed

lemma dijkstra_loop_rule:
  assumes run: "dijkstra_loop transitions success cost visited frontier = Some r"
    and init: "I visited frontier"
    and step: "\<And>v f v' f'. I v f \<Longrightarrow>
                 loop_body transitions success cost v f = Inr (v', f') \<Longrightarrow> I v' f'"
    and final: "\<And>v f r. I v f \<Longrightarrow> loop_body transitions success cost v f = Inl r \<Longrightarrow> P r"
  shows "P r"
proof -
  let ?Q = "\<lambda>T s c v f y. T = transitions \<and> s = success \<and> c = cost \<and> I v f \<longrightarrow> P y"
  have "?Q transitions success cost visited frontier r"
  proof (rule dijkstra_loop.raw_induct[where P = ?Q, OF _ run])
    fix dl T s c v f y
    assume IH: "\<And>T s c v f y. dl T s c v f = Some y \<Longrightarrow> ?Q T s c v f y"
      and body: "(case loop_body T s c v f of Inl result \<Rightarrow> Some result
                  | Inr (visited, frontier) \<Rightarrow> dl T s c visited frontier) = Some y"
    show "?Q T s c v f y"
    proof (intro impI, elim conjE)
      assume eq: "T = transitions" "s = success" "c = cost" and inv: "I v f"
      show "P y"
      proof (cases "loop_body T s c v f")
        case (Inl res)
        then show ?thesis using body final[OF inv] eq by simp
      next
        case (Inr vf)
        obtain v' f' where vf: "vf = (v', f')" by (cases vf)
        have "dl T s c v' f' = Some y" using body Inr vf by simp
        moreover have "I v' f'" using step[OF inv] Inr vf eq by simp
        ultimately show ?thesis using IH eq by blast
      qed
    qed
  qed
  then show ?thesis using init by blast
qed

section \<open>Path validity\<close>

lemma apply_path_append:
  "apply_path transitions (p @ q) s =
     (case apply_path transitions p s of None \<Rightarrow> None | Some s' \<Rightarrow> apply_path transitions q s')"
  by (induction p arbitrary: s) (auto split: option.splits)

lemma apply_path_keys:
  "apply_path transitions p s = Some s' \<Longrightarrow> set p \<subseteq> fst ` set transitions"
proof (induction p arbitrary: s)
  case Nil
  then show ?case by simp
next
  case (Cons t p)
  then obtain f where f: "map_of transitions t = Some f" "apply_path transitions p (f s) = Some s'"
    by (auto split: option.splits)
  from f(1) have "(t, f) \<in> set transitions" by (rule map_of_SomeD)
  then have "t \<in> fst ` set transitions" by force
  then show ?case using Cons.IH[OF f(2)] by simp
qed

lemma pushed_valid:
  assumes "distinct (map fst transitions)"
    and "apply_path transitions (node_path node) init_state = Some (node_state node)"
    and "n \<in> pushed transitions cost visited node"
  shows "valid_node transitions init_state cost n"
proof -
  from assms(3) obtain name transition where
    n: "n = \<lparr>node_state = transition (node_state node), node_path = node_path node @ [name],
             node_cost = cost (node_path node @ [name])\<rparr>"
    and m: "(name, transition) \<in> set transitions"
    by (auto simp: pushed_def)
  have "map_of transitions name = Some transition"
    using assms(1) m by simp
  then show ?thesis using assms(2) by (simp add: valid_node_def n apply_path_append)
qed

lemma first_in_set: "frontier \<noteq> [] \<Longrightarrow> frontier ! 0 \<in> set frontier"
  by simp

lemma rest_subset: "mset frontier = add_mset x (mset rest) \<Longrightarrow> set rest \<subseteq> set frontier"
  by (metis set_mset_mset set_mset_add_mset_insert subset_insertI)

lemma inv_valid_step:
  assumes d: "distinct (map fst transitions)"
    and inv: "inv_valid transitions init_state cost v f"
    and body: "loop_body transitions success cost v f = Inr (v', f')"
  shows "inv_valid transitions init_state cost v' f'"
proof (cases rule: loop_body_cases[of f transitions success cost v])
  case empty
  then show ?thesis using body by simp
next
  case (skip rest)
  then show ?thesis using inv body rest_subset[OF skip(2)] by (auto simp: inv_valid_def)
next
  case found
  then show ?thesis using body by simp
next
  case (expand rest)
  let ?n = "f ! 0"
  have n: "valid_node transitions init_state cost ?n"
    using inv first_in_set[OF expand(1)] by (simp add: inv_valid_def)
  have v': "v' = v(node_state ?n \<mapsto> node_path ?n)"
    and f': "f' = expand transitions cost v' ?n rest"
    using body expand(6) by auto
  have "\<forall>s p. v' s = Some p \<longrightarrow> apply_path transitions p init_state = Some s"
    using inv n by (auto simp: v' inv_valid_def valid_node_def)
  moreover have "\<forall>node \<in> set f'. valid_node transitions init_state cost node"
  proof
    fix node assume "node \<in> set f'"
    then have "node \<in> set rest \<or> node \<in> pushed transitions cost v' ?n"
      by (simp add: f' set_expand)
    then show "valid_node transitions init_state cost node"
      using inv rest_subset[OF expand(2)] pushed_valid[OF d] n
      by (auto simp: inv_valid_def valid_node_def)
  qed
  ultimately show ?thesis by (simp add: inv_valid_def)
qed

lemma inv_valid_final:
  assumes inv: "inv_valid transitions init_state cost v f"
    and body: "loop_body transitions success cost v f = Inl (Inr p)"
  shows "\<exists>s. apply_path transitions p init_state = Some s \<and> success s"
proof (cases rule: loop_body_cases[of f transitions success cost v])
  case found
  then have "p = node_path (f ! 0)" using body by simp
  moreover have "valid_node transitions init_state cost (f ! 0)"
    using inv first_in_set[OF found(1)] by (simp add: inv_valid_def)
  ultimately show ?thesis using found(3) by (auto simp: valid_node_def)
qed (use body in simp_all)

lemma inv_valid_init:
  "inv_valid transitions init_state cost Map.empty
     (heappush [] \<lparr>node_state = init_state, node_path = [], node_cost = cost []\<rparr>)"
  by (simp add: inv_valid_def heappush_Nil valid_node_def)

lemmas search_eval =
  state_search_via_dijkstras_def dijkstra_loop.simps loop_body_def heappush_def heappop_def
  siftdown_def siftup_def siftdown_loop.simps siftup_loop.simps lt_def Let_def dom_def

text \<open>
  C2. A returned path names only keys of the transition table, and applying the named
  transitions in order to \<open>init_state\<close> gives a state that satisfies \<open>success\<close>.
\<close>

theorem path_validity:
  assumes "distinct (map fst transitions)"
    and "state_search_via_dijkstras init_state transitions success cost = Some (Inr p)"
  shows "set p \<subseteq> fst ` set transitions \<and>
         (\<exists>s. apply_path transitions p init_state = Some s \<and> success s)"
proof -
  define P :: "error + path \<Rightarrow> bool" where
    "P = (\<lambda>r. \<forall>p. r = Inr p \<longrightarrow>
            (\<exists>s. apply_path transitions p init_state = Some s \<and> success s))"
  have run: "dijkstra_loop transitions success cost Map.empty
     (heappush [] \<lparr>node_state = init_state, node_path = [], node_cost = cost []\<rparr>) = Some (Inr p)"
    using assms(2) by (simp add: state_search_via_dijkstras_def Let_def)
  have "P (Inr p)"
  proof (rule dijkstra_loop_rule[where P = P and I = "inv_valid transitions init_state cost", OF run])
    show "inv_valid transitions init_state cost Map.empty
     (heappush [] \<lparr>node_state = init_state, node_path = [], node_cost = cost []\<rparr>)"
      by (rule inv_valid_init)
  next
    fix v f v' f'
    assume "inv_valid transitions init_state cost v f"
      "loop_body transitions success cost v f = Inr (v', f')"
    then show "inv_valid transitions init_state cost v' f'"
      by (rule inv_valid_step[OF assms(1)])
  next
    fix v f r
    assume "inv_valid transitions init_state cost v f"
      "loop_body transitions success cost v f = Inl r"
    then show "P r"
      unfolding P_def using inv_valid_final[of transitions init_state cost v f success] by blast
  qed
  then show ?thesis unfolding P_def using apply_path_keys by blast
qed

theorem path_validity_witness:
  "distinct (map fst [(''a'', \<lambda>s::state. [''1'']), (''b'', \<lambda>s. [''2''])]) \<and>
   state_search_via_dijkstras [''0''] [(''a'', \<lambda>s. [''1'']), (''b'', \<lambda>s. [''2''])]
     (\<lambda>s. s = [''2'']) (\<lambda>p. int (length p)) = Some (Inr [''b'']) \<and>
   set [''b''] \<subseteq> fst ` set [(''a'', \<lambda>s::state. [''1'']), (''b'', \<lambda>s. [''2''])] \<and>
   (\<exists>s. apply_path [(''a'', \<lambda>s. [''1'']), (''b'', \<lambda>s. [''2''])] [''b''] [''0''] = Some s \<and>
        (\<lambda>s. s = [''2'']) s)"
proof -
  have h1: "distinct (map fst [(''a'', \<lambda>s::state. [''1'']), (''b'', \<lambda>s. [''2''])])"
    by simp
  have h2: "state_search_via_dijkstras [''0''] [(''a'', \<lambda>s. [''1'']), (''b'', \<lambda>s. [''2''])]
     (\<lambda>s. s = [''2'']) (\<lambda>p. int (length p)) = Some (Inr [''b''])"
    by (simp add: search_eval)
  from path_validity[OF h1 h2] h1 h2 show ?thesis by blast
qed

section \<open>Termination without a solution\<close>

lemma dijkstra_loop_stop:
  "loop_body transitions success cost visited frontier = Inl r \<Longrightarrow>
   dijkstra_loop transitions success cost visited frontier = Some r"
  by (subst dijkstra_loop.simps) simp

lemma dijkstra_loop_pass:
  "loop_body transitions success cost visited frontier = Inr (visited', frontier') \<Longrightarrow>
   dijkstra_loop transitions success cost visited frontier =
   dijkstra_loop transitions success cost visited' frontier'"
  by (subst dijkstra_loop.simps) simp

lemma pushed_reachable:
  assumes "node_state node \<in> reachable transitions init_state"
    and "n \<in> pushed transitions cost visited node"
  shows "node_state n \<in> reachable transitions init_state"
  using assms by (auto simp: pushed_def intro: reachable.step)

lemma dijkstra_loop_exhausts:
  assumes fin: "finite (reachable transitions init_state)"
    and nos: "\<forall>s \<in> reachable transitions init_state. \<not> success s"
  shows "card (reachable transitions init_state - dom visited) = n \<Longrightarrow>
         node_state ` set frontier \<subseteq> reachable transitions init_state \<Longrightarrow>
         dijkstra_loop transitions success cost visited frontier =
           Some (Inl (RuntimeError ''No solution found.''))"
proof (induction n arbitrary: visited frontier rule: less_induct)
  case (less n)
  let ?R = "reachable transitions init_state"
  from less.prems show ?case
  proof (induction "length frontier" arbitrary: frontier rule: less_induct)
    case inner: less
    show ?case
    proof (cases rule: loop_body_cases[of frontier transitions success cost visited])
      case empty
      show ?thesis by (rule dijkstra_loop_stop[OF empty(2)])
    next
      case (skip rest)
      have "size (mset frontier) = Suc (size (mset rest))"
        by (simp only: skip(2) size_add_mset)
      then have len: "length rest < length frontier" by simp
      have sub: "node_state ` set rest \<subseteq> ?R"
        using inner.prems(2) rest_subset[OF skip(2)] by blast
      have "dijkstra_loop transitions success cost visited rest =
           Some (Inl (RuntimeError ''No solution found.''))"
        by (rule inner.hyps[OF len inner.prems(1) sub])
      then show ?thesis by (simp only: dijkstra_loop_pass[OF skip(5)])
    next
      case found
      have "node_state (frontier ! 0) \<in> ?R"
        using inner.prems(2) first_in_set[OF found(1)] by blast
      then show ?thesis using nos found(3) by blast
    next
      case (expand rest)
      let ?n = "frontier ! 0"
      let ?v = "visited(node_state ?n \<mapsto> node_path ?n)"
      let ?f = "expand transitions cost ?v ?n rest"
      have nR: "node_state ?n \<in> ?R"
        using inner.prems(2) first_in_set[OF expand(1)] by blast
      have "?R - dom ?v = (?R - dom visited) - {node_state ?n}" by auto
      moreover have "node_state ?n \<in> ?R - dom visited" using nR expand(4) by simp
      ultimately have "card (?R - dom ?v) < card (?R - dom visited)"
        using fin by (metis card_Diff1_less finite_Diff)
      then have lt: "card (?R - dom ?v) < n" using inner.prems(1) by simp
      have "set ?f = set rest \<union> pushed transitions cost ?v ?n" by (rule set_expand)
      then have sub: "node_state ` set ?f \<subseteq> ?R"
        using inner.prems(2) rest_subset[OF expand(2)] pushed_reachable[OF nR] by blast
      have "dijkstra_loop transitions success cost ?v ?f =
           Some (Inl (RuntimeError ''No solution found.''))"
        by (rule less.IH[OF lt refl sub])
      then show ?thesis by (simp only: dijkstra_loop_pass[OF expand(6)])
    qed
  qed
qed

text \<open>
  C3. If the set of states reachable from \<open>init_state\<close> is finite and none of them satisfies
  \<open>success\<close>, the search returns, and what it returns is the no-solution exception.
\<close>

theorem no_solution_terminates:
  assumes "finite (reachable transitions init_state)"
    and "\<forall>s \<in> reachable transitions init_state. \<not> success s"
  shows "state_search_via_dijkstras init_state transitions success cost =
           Some (Inl (RuntimeError ''No solution found.''))"
proof -
  have "node_state ` set (heappush []
          \<lparr>node_state = init_state, node_path = [], node_cost = cost []\<rparr>)
        \<subseteq> reachable transitions init_state"
    by (simp add: heappush_Nil reachable.init)
  from dijkstra_loop_exhausts[OF assms refl this]
  show ?thesis by (simp add: state_search_via_dijkstras_def Let_def)
qed

theorem no_solution_terminates_witness:
  "finite (reachable [(''a'', \<lambda>s. [''1''])] [''0'']) \<and>
   \<not> (\<exists>s \<in> reachable [(''a'', \<lambda>s. [''1''])] [''0'']. (\<lambda>s. s = [''2'']) s) \<and>
   state_search_via_dijkstras [''0''] [(''a'', \<lambda>s. [''1''])] (\<lambda>s. s = [''2''])
     (\<lambda>p. int (length p)) = Some (Inl (RuntimeError ''No solution found.''))"
proof -
  have sub: "s \<in> {[''0''], [''1'']}" if "s \<in> reachable [(''a'', \<lambda>s. [''1''])] [''0'']" for s
    using that by (induction rule: reachable.induct) auto
  then have "reachable [(''a'', \<lambda>s. [''1''])] [''0''] \<subseteq> {[''0''], [''1'']}" by blast
  then have h1: "finite (reachable [(''a'', \<lambda>s. [''1''])] [''0''])"
    by (rule finite_subset) simp
  have h2: "\<forall>s \<in> reachable [(''a'', \<lambda>s. [''1''])] [''0'']. \<not> (\<lambda>s. s = [''2'']) s"
    using sub by auto
  from no_solution_terminates[OF h1 h2, of "\<lambda>p. int (length p)"] h1 h2
  show ?thesis by blast
qed

section \<open>The empty transition table\<close>

text \<open>
  C10. With an empty transition table and an initial state that does not satisfy
  \<open>success\<close>, the first pass of the loop records the initial state and leaves the frontier
  empty, and the search returns with the no-solution exception; \<open>success\<close> and \<open>cost\<close>
  are arbitrary otherwise, so no other state is examined.
\<close>

theorem empty_table_no_solution:
  assumes "\<not> success init_state"
  shows "loop_body [] success cost Map.empty
           [\<lparr>node_state = init_state, node_path = [], node_cost = cost []\<rparr>]
         = Inr ([init_state \<mapsto> []], []) \<and>
         state_search_via_dijkstras init_state [] success cost =
           Some (Inl (RuntimeError ''No solution found.''))"
proof -
  have 1: "loop_body [] success cost Map.empty
           [\<lparr>node_state = init_state, node_path = [], node_cost = cost []\<rparr>]
         = Inr ([init_state \<mapsto> []], [])"
    using assms by (simp add: loop_body_def heappop_single)
  have 2: "loop_body [] success cost [init_state \<mapsto> []] [] =
           Inl (Inl (RuntimeError ''No solution found.''))"
    by (simp add: loop_body_def)
  have "dijkstra_loop [] success cost Map.empty
           [\<lparr>node_state = init_state, node_path = [], node_cost = cost []\<rparr>]
        = Some (Inl (RuntimeError ''No solution found.''))"
    by (simp only: dijkstra_loop_pass[OF 1] dijkstra_loop_stop[OF 2])
  then show ?thesis using 1 by (simp add: state_search_via_dijkstras_def heappush_Nil)
qed

theorem empty_table_no_solution_witness:
  "\<not> (\<lambda>s. s = [''11'']) [''00''] \<and>
   loop_body [] (\<lambda>s. s = [''11'']) (\<lambda>p. int (length p)) Map.empty
           [\<lparr>node_state = [''00''], node_path = [], node_cost = (\<lambda>p::path. int (length p)) []\<rparr>]
         = Inr ([[''00''] \<mapsto> []], []) \<and>
   state_search_via_dijkstras [''00''] [] (\<lambda>s. s = [''11'']) (\<lambda>p. int (length p)) =
           Some (Inl (RuntimeError ''No solution found.''))"
proof -
  have h: "\<not> (\<lambda>s. s = [''11'']) [''00'']" by simp
  show ?thesis
    by (rule conjI[OF h empty_table_no_solution[of "\<lambda>s. s = [''11'']" "[''00'']"
          "\<lambda>p. int (length p)", OF h]])
qed

section \<open>The visited dictionary\<close>

lemma loop_body_visited:
  assumes "loop_body transitions success cost v f = Inr (v', f')"
  shows "f \<noteq> [] \<and> (\<exists>rest. heappop f = Inr (f ! 0, rest)) \<and>
         (is_heap f \<longrightarrow> is_heap f') \<and>
         node_state (f ! 0) \<in> dom v' \<and>
         (v' = v \<or> (node_state (f ! 0) \<notin> dom v \<and> v' = v(node_state (f ! 0) \<mapsto> node_path (f ! 0))))"
proof (cases rule: loop_body_cases[of f transitions success cost v])
  case empty
  then show ?thesis using assms by simp
next
  case (skip rest)
  then show ?thesis using assms heappop_props[OF skip(1)] by auto
next
  case found
  then show ?thesis using assms by simp
next
  case (expand rest)
  then show ?thesis using assms heappop_props[OF expand(1)] by (auto simp: is_heap_expand)
qed

lemma loop_reaches_is_heap:
  "loop_reaches transitions success cost conf conf' \<Longrightarrow> is_heap (snd conf) \<Longrightarrow>
   is_heap (snd conf')"
proof (induction rule: loop_reaches.induct)
  case start
  then show ?case by simp
next
  case (pass conf visited frontier visited' frontier')
  then show ?case using loop_body_visited[OF pass.hyps(2)] by simp
qed

lemma loop_reaches_visited:
  "loop_reaches transitions success cost conf conf' \<Longrightarrow> fst conf s = Some p \<Longrightarrow>
   fst conf' s = Some p"
proof (induction rule: loop_reaches.induct)
  case start
  then show ?case by simp
next
  case (pass conf visited frontier visited' frontier')
  then have "visited s = Some p" by simp
  then show ?case using loop_body_visited[OF pass.hyps(2)] by (auto simp: dom_def)
qed

text \<open>
  C6. At any point of a search, one more pass of the loop pops a node of minimum cost and
  leaves its state recorded; the pass keeps every entry of \<open>visited\<close> as it is, and the
  only entry it can add is the popped node's state with the popped node's path, when that
  state was not recorded yet. No later pass changes or removes an entry.
\<close>

theorem visited_entry_final:
  assumes "loop_reaches transitions success cost
             (Map.empty, heappush [] \<lparr>node_state = init_state, node_path = [], node_cost = cost []\<rparr>)
             (v, f)"
    and "loop_body transitions success cost v f = Inr (v', f')"
    and "loop_reaches transitions success cost (v', f') (v'', f'')"
  shows "\<exists>node rest. heappop f = Inr (node, rest) \<and>
           (\<forall>n \<in> set f. node_cost node \<le> node_cost n) \<and>
           node_state node \<in> dom v' \<and>
           (\<forall>s p. v s = Some p \<longrightarrow> v' s = Some p) \<and>
           (\<forall>s. v s = None \<and> v' s \<noteq> None \<longrightarrow>
                 s = node_state node \<and> v' s = Some (node_path node)) \<and>
           (\<forall>s p. v' s = Some p \<longrightarrow> v'' s = Some p)"
proof -
  have "is_heap (heappush [] \<lparr>node_state = init_state, node_path = [], node_cost = cost []\<rparr>)"
    by (simp add: heappush_Nil is_heap_def)
  then have h: "is_heap f" using loop_reaches_is_heap[OF assms(1)] by simp
  from loop_body_visited[OF assms(2)] obtain rest where
    b: "f \<noteq> []" "heappop f = Inr (f ! 0, rest)" "node_state (f ! 0) \<in> dom v'"
       "v' = v \<or> (node_state (f ! 0) \<notin> dom v \<and> v' = v(node_state (f ! 0) \<mapsto> node_path (f ! 0)))"
    by blast
  have min: "\<forall>n \<in> set f. node_cost (f ! 0) \<le> node_cost n"
    using is_heap_root_min[OF h] by (auto simp: in_set_conv_nth)
  have keep: "\<forall>s p. v s = Some p \<longrightarrow> v' s = Some p" using b(4) by (auto simp: dom_def)
  have new: "\<forall>s. v s = None \<and> v' s \<noteq> None \<longrightarrow>
                 s = node_state (f ! 0) \<and> v' s = Some (node_path (f ! 0))"
    using b(4) by (auto split: if_splits)
  have later: "\<forall>s p. v' s = Some p \<longrightarrow> v'' s = Some p"
    using loop_reaches_visited[OF assms(3)] by simp
  show ?thesis using b(2,3) min keep new later by blast
qed

theorem visited_entry_final_witness:
  "loop_reaches [(''a'', \<lambda>s. [''1''])] (\<lambda>s. s = [''2'']) (\<lambda>p. int (length p))
     (Map.empty, heappush [] \<lparr>node_state = [''0''], node_path = [],
                                node_cost = (\<lambda>p::path. int (length p)) []\<rparr>)
     (Map.empty, [\<lparr>node_state = [''0''], node_path = [], node_cost = 0\<rparr>]) \<and>
   loop_body [(''a'', \<lambda>s. [''1''])] (\<lambda>s. s = [''2'']) (\<lambda>p. int (length p))
     Map.empty [\<lparr>node_state = [''0''], node_path = [], node_cost = 0\<rparr>]
     = Inr ([[''0''] \<mapsto> []], [\<lparr>node_state = [''1''], node_path = [''a''], node_cost = 1\<rparr>]) \<and>
   (\<exists>node rest.
       heappop [\<lparr>node_state = [''0''], node_path = [], node_cost = 0\<rparr>] = Inr (node, rest) \<and>
       (\<forall>n \<in> set [\<lparr>node_state = [''0''], node_path = [], node_cost = 0\<rparr>].
           node_cost node \<le> node_cost n) \<and>
       node_state node \<in> dom [[''0''] \<mapsto> ([]::path)] \<and>
       (\<forall>s p. (Map.empty :: state \<rightharpoonup> path) s = Some p \<longrightarrow> [[''0''] \<mapsto> []] s = Some p) \<and>
       (\<forall>s. (Map.empty :: state \<rightharpoonup> path) s = None \<and> [[''0''] \<mapsto> ([]::path)] s \<noteq> None \<longrightarrow>
             s = node_state node \<and> [[''0''] \<mapsto> []] s = Some (node_path node)) \<and>
       (\<forall>s p. [[''0''] \<mapsto> ([]::path)] s = Some p \<longrightarrow> [[''0''] \<mapsto> []] s = Some p))"
proof -
  let ?T = "[(''a'', \<lambda>s::state. [''1''])]"
  let ?n0 = "\<lparr>node_state = [''0''], node_path = [], node_cost = 0\<rparr>"
  let ?n1 = "\<lparr>node_state = [''1''], node_path = [''a''], node_cost = 1\<rparr>"
  have e: "heappush [] \<lparr>node_state = [''0''], node_path = [],
                                node_cost = (\<lambda>p::path. int (length p)) []\<rparr> = [?n0]"
    by (simp add: heappush_Nil)
  have h1: "loop_reaches ?T (\<lambda>s. s = [''2'']) (\<lambda>p. int (length p))
     (Map.empty, heappush [] \<lparr>node_state = [''0''], node_path = [],
                                node_cost = (\<lambda>p::path. int (length p)) []\<rparr>)
     (Map.empty, [?n0])"
    unfolding e by (rule loop_reaches.start)
  have h2: "loop_body ?T (\<lambda>s. s = [''2'']) (\<lambda>p. int (length p)) Map.empty [?n0]
     = Inr ([[''0''] \<mapsto> []], [?n1])"
    by (simp add: loop_body_def heappop_single heappush_Nil)
  have h3: "loop_reaches ?T (\<lambda>s. s = [''2'']) (\<lambda>p. int (length p))
     ([[''0''] \<mapsto> []], [?n1]) ([[''0''] \<mapsto> []], [?n1])"
    by (rule loop_reaches.start)
  show ?thesis
    by (intro conjI) (rule h1, rule h2, rule visited_entry_final[OF h1 h2 h3])
qed

section \<open>Ties between paths of equal cost\<close>

text \<open>
  Two transitions lead to the same success state at the same cost. The node pushed first
  stays at the root of the heap, since \<open>_siftdown\<close> moves a node up only past a strictly
  costlier parent, so the path returned is the one of the table's first entry.
\<close>

lemma tie_follows_table_order:
  "state_search_via_dijkstras [''0''] [(''a'', \<lambda>s. [''1'']), (''b'', \<lambda>s. [''1''])]
     (\<lambda>s. s = [''1'']) (\<lambda>p. int (length p)) = Some (Inr [''a'']) \<and>
   state_search_via_dijkstras [''0''] [(''b'', \<lambda>s. [''1'']), (''a'', \<lambda>s. [''1''])]
     (\<lambda>s. s = [''1'']) (\<lambda>p. int (length p)) = Some (Inr [''b''])"
  by (simp add: search_eval)

section \<open>Optimality\<close>

lemma apply_path_snoc:
  "apply_path transitions (q @ [t]) s = Some s'' \<Longrightarrow>
   \<exists>s' transition. apply_path transitions q s = Some s' \<and>
      map_of transitions t = Some transition \<and> s'' = transition s'"
  by (auto simp: apply_path_append split: option.splits)

lemma frontier_bound:
  assumes inv: "inv_opt transitions init_state success cost v f"
    and mono: "\<forall>p t. cost p \<le> cost (p @ [t])"
    and iso: "\<forall>p q t s. apply_path transitions p init_state = Some s \<and>
                apply_path transitions q init_state = Some s \<and> cost p \<le> cost q \<longrightarrow>
                cost (p @ [t]) \<le> cost (q @ [t])"
  shows "apply_path transitions q init_state = Some s \<Longrightarrow> s \<notin> dom v \<Longrightarrow>
         \<exists>node \<in> set f. node_cost node \<le> cost q"
proof (induction q arbitrary: s rule: rev_induct)
  case Nil
  then have "init_state \<notin> dom v" by simp
  then obtain node where n: "node \<in> set f" "node_path node = []"
    using inv unfolding inv_opt_def by blast
  then have "node_cost node = cost []"
    using inv unfolding inv_opt_def inv_valid_def valid_node_def by simp
  then have "node_cost node \<le> cost []" by simp
  then show ?case using n(1) by (rule bexI)
next
  case (snoc t q)
  from apply_path_snoc[OF snoc.prems(1)] obtain s' transition where
    st: "apply_path transitions q init_state = Some s'"
        "map_of transitions t = Some transition" "s = transition s'"
    by blast
  have m: "(t, transition) \<in> set transitions" using st(2) by (rule map_of_SomeD)
  show ?case
  proof (cases "s' \<in> dom v")
    case False
    from snoc.IH[OF st(1) False] obtain node where "node \<in> set f" "node_cost node \<le> cost q"
      by blast
    moreover have "cost q \<le> cost (q @ [t])" using mono by blast
    ultimately show ?thesis by force
  next
    case True
    then obtain r where r: "v s' = Some r" by blast
    have rq: "cost r \<le> cost q" using inv r st(1) unfolding inv_opt_def by blast
    have rv: "apply_path transitions r init_state = Some s'"
      using inv r unfolding inv_opt_def inv_valid_def by blast
    have "transition s' \<in> dom v \<or>
         (\<exists>node \<in> set f. node_state node = transition s' \<and> node_path node = r @ [t])"
      using inv r m unfolding inv_opt_def by blast
    then obtain node where n: "node \<in> set f" "node_path node = r @ [t]"
      using snoc.prems(2) st(3) by blast
    then have "node_cost node = cost (r @ [t])"
      using inv unfolding inv_opt_def inv_valid_def valid_node_def by simp
    moreover have "cost (r @ [t]) \<le> cost (q @ [t])"
      using iso rv st(1) rq by blast
    ultimately show ?thesis using n(1) by force
  qed
qed

lemma popped_minimal:
  assumes inv: "inv_opt transitions init_state success cost v f"
    and mono: "\<forall>p t. cost p \<le> cost (p @ [t])"
    and iso: "\<forall>p q t s. apply_path transitions p init_state = Some s \<and>
                apply_path transitions q init_state = Some s \<and> cost p \<le> cost q \<longrightarrow>
                cost (p @ [t]) \<le> cost (q @ [t])"
    and ne: "f \<noteq> []"
    and q: "apply_path transitions q init_state = Some s" "s \<notin> dom v"
  shows "cost (node_path (f ! 0)) \<le> cost q"
proof -
  from frontier_bound[OF inv mono iso q] obtain node where
    n: "node \<in> set f" "node_cost node \<le> cost q" by blast
  have h: "is_heap f" using inv unfolding inv_opt_def by blast
  from n(1) obtain i where "i < length f" "f ! i = node" by (auto simp: in_set_conv_nth)
  then have "node_cost (f ! 0) \<le> node_cost node" using is_heap_root_min[OF h] by blast
  moreover have "node_cost (f ! 0) = cost (node_path (f ! 0))"
    using inv first_in_set[OF ne] unfolding inv_opt_def inv_valid_def valid_node_def by blast
  ultimately show ?thesis using n(2) by linarith
qed

lemma inv_opt_init:
  "inv_opt transitions init_state success cost Map.empty
     (heappush [] \<lparr>node_state = init_state, node_path = [], node_cost = cost []\<rparr>)"
  unfolding inv_opt_def
  by (simp add: inv_valid_init) (simp add: heappush_Nil is_heap_def)

lemma inv_opt_step:
  assumes d: "distinct (map fst transitions)"
    and mono: "\<forall>p t. cost p \<le> cost (p @ [t])"
    and iso: "\<forall>p q t s. apply_path transitions p init_state = Some s \<and>
                apply_path transitions q init_state = Some s \<and> cost p \<le> cost q \<longrightarrow>
                cost (p @ [t]) \<le> cost (q @ [t])"
    and inv: "inv_opt transitions init_state success cost v f"
    and body: "loop_body transitions success cost v f = Inr (v', f')"
  shows "inv_opt transitions init_state success cost v' f'"
proof -
  have valid: "inv_valid transitions init_state cost v' f'"
    using inv_valid_step[OF d _ body] inv unfolding inv_opt_def by blast
  have heap: "is_heap f'"
    using loop_body_visited[OF body] inv unfolding inv_opt_def by blast
  note I3 = inv[unfolded inv_opt_def, THEN conjunct2, THEN conjunct2, THEN conjunct1]
  note I4 = inv[unfolded inv_opt_def, THEN conjunct2, THEN conjunct2, THEN conjunct2, THEN conjunct1]
  note I5 = inv[unfolded inv_opt_def, THEN conjunct2, THEN conjunct2, THEN conjunct2, THEN conjunct2]
  show ?thesis
  proof (cases rule: loop_body_cases[of f transitions success cost v])
    case empty
    then show ?thesis using body by simp
  next
    case found
    then show ?thesis using body by simp
  next
    case (skip rest)
    have eq: "v' = v" "f' = rest" using body skip(5) by simp_all
    have sf: "set f = insert (f ! 0) (set rest)" by (rule set_frontier_pop[OF skip(1,2)])
    have 4: "init_state \<in> dom v \<or>
         (\<exists>node \<in> set rest. node_state node = init_state \<and> node_path node = [])"
      using I4 sf skip(4) by auto
    have 5: "\<forall>s p name transition. v s = Some p \<and> (name, transition) \<in> set transitions \<longrightarrow>
         transition s \<in> dom v \<or>
         (\<exists>node \<in> set rest. node_state node = transition s \<and> node_path node = p @ [name])"
    proof (intro allI impI)
      fix s p name transition
      assume a: "v s = Some p \<and> (name, transition) \<in> set transitions"
      then have "transition s \<in> dom v \<or>
         (\<exists>node \<in> set f. node_state node = transition s \<and> node_path node = p @ [name])"
        using I5 by blast
      then show "transition s \<in> dom v \<or>
         (\<exists>node \<in> set rest. node_state node = transition s \<and> node_path node = p @ [name])"
        using sf skip(4) by auto
    qed
    show ?thesis unfolding inv_opt_def eq using valid heap I3 4 5 eq by blast
  next
    case (expand rest)
    let ?n = "f ! 0"
    have v': "v' = v(node_state ?n \<mapsto> node_path ?n)"
      and f': "f' = expand transitions cost v' ?n rest"
      using body expand(6) by auto
    have dv: "dom v' = insert (node_state ?n) (dom v)" by (simp add: v')
    have sf: "set f = insert ?n (set rest)" by (rule set_frontier_pop[OF expand(1,2)])
    have sf': "set f' = set rest \<union> pushed transitions cost v' ?n" by (simp add: f' set_expand)
    have 3: "\<forall>s p. v' s = Some p \<longrightarrow> \<not> success s \<and>
         (\<forall>q. apply_path transitions q init_state = Some s \<longrightarrow> cost p \<le> cost q)"
    proof (intro allI impI)
      fix s p assume a: "v' s = Some p"
      show "\<not> success s \<and>
         (\<forall>q. apply_path transitions q init_state = Some s \<longrightarrow> cost p \<le> cost q)"
      proof (cases "s = node_state ?n")
        case True
        then have "p = node_path ?n" using a by (simp add: v')
        then show ?thesis
          using True expand(4,5) popped_minimal[OF inv mono iso expand(1)] by blast
      next
        case False
        then have "v s = Some p" using a by (simp add: v')
        then show ?thesis using I3 by blast
      qed
    qed
    have 4: "init_state \<in> dom v' \<or>
         (\<exists>node \<in> set f'. node_state node = init_state \<and> node_path node = [])"
      using I4 sf sf' dv by auto
    have 5: "\<forall>s p name transition. v' s = Some p \<and> (name, transition) \<in> set transitions \<longrightarrow>
         transition s \<in> dom v' \<or>
         (\<exists>node \<in> set f'. node_state node = transition s \<and> node_path node = p @ [name])"
    proof (intro allI impI, elim conjE)
      fix s p name transition
      assume a: "v' s = Some p" and m: "(name, transition) \<in> set transitions"
      show "transition s \<in> dom v' \<or>
         (\<exists>node \<in> set f'. node_state node = transition s \<and> node_path node = p @ [name])"
      proof (cases "s = node_state ?n")
        case True
        then have p: "p = node_path ?n" using a by (simp add: v')
        show ?thesis
        proof (cases "transition s \<in> dom v'")
          case True
          then show ?thesis by simp
        next
          case False
          then have "\<lparr>node_state = transition (node_state ?n), node_path = node_path ?n @ [name],
              node_cost = cost (node_path ?n @ [name])\<rparr> \<in> pushed transitions cost v' ?n"
            using m True unfolding pushed_def by blast
          then have "\<lparr>node_state = transition (node_state ?n), node_path = node_path ?n @ [name],
              node_cost = cost (node_path ?n @ [name])\<rparr> \<in> set f'"
            using sf' by simp
          then show ?thesis using True p by force
        qed
      next
        case False
        then have "v s = Some p" using a by (simp add: v')
        then have "transition s \<in> dom v \<or>
         (\<exists>node \<in> set f. node_state node = transition s \<and> node_path node = p @ [name])"
          using I5 m by blast
        then show ?thesis using sf sf' dv by auto
      qed
    qed
    show ?thesis unfolding inv_opt_def using valid heap 3 4 5 by blast
  qed
qed

lemma inv_opt_final:
  assumes mono: "\<forall>p t. cost p \<le> cost (p @ [t])"
    and iso: "\<forall>p q t s. apply_path transitions p init_state = Some s \<and>
                apply_path transitions q init_state = Some s \<and> cost p \<le> cost q \<longrightarrow>
                cost (p @ [t]) \<le> cost (q @ [t])"
    and inv: "inv_opt transitions init_state success cost v f"
    and body: "loop_body transitions success cost v f = Inl (Inr p)"
  shows "(\<exists>s. apply_path transitions p init_state = Some s \<and> success s) \<and>
         (\<forall>q s. apply_path transitions q init_state = Some s \<and> success s \<longrightarrow> cost p \<le> cost q)"
proof (cases rule: loop_body_cases[of f transitions success cost v])
  case found
  have p: "p = node_path (f ! 0)" using body found(4) by simp
  have 1: "\<exists>s. apply_path transitions p init_state = Some s \<and> success s"
    using inv_valid_final[OF _ body] inv unfolding inv_opt_def by blast
  have 2: "cost p \<le> cost q" if "apply_path transitions q init_state = Some s" "success s" for q s
  proof -
    have "s \<notin> dom v" using inv that(2) unfolding inv_opt_def by blast
    from popped_minimal[OF inv mono iso found(1) that(1) this] show ?thesis by (simp add: p)
  qed
  show ?thesis using 1 2 by blast
qed (use body in simp_all)

text \<open>
  C1, as amended. Let the table's keys be distinct and the cost be monotone under extension
  and, between two paths that lead from \<open>init_state\<close> to the same state, keep its order
  under extension by the same transition. Then a returned path reaches a state satisfying
  \<open>success\<close> and costs no more than any path that does: its cost is the minimum.
\<close>

theorem optimal_for_isotone_cost:
  assumes "distinct (map fst transitions)"
    and "\<forall>p t. cost p \<le> cost (p @ [t])"
    and "\<forall>p q t s. apply_path transitions p init_state = Some s \<and>
                apply_path transitions q init_state = Some s \<and> cost p \<le> cost q \<longrightarrow>
                cost (p @ [t]) \<le> cost (q @ [t])"
    and "state_search_via_dijkstras init_state transitions success cost = Some (Inr p)"
  shows "(\<exists>s. apply_path transitions p init_state = Some s \<and> success s) \<and>
         (\<forall>q s. apply_path transitions q init_state = Some s \<and> success s \<longrightarrow> cost p \<le> cost q)"
proof -
  define P :: "error + path \<Rightarrow> bool" where
    "P = (\<lambda>r. \<forall>p. r = Inr p \<longrightarrow>
            (\<exists>s. apply_path transitions p init_state = Some s \<and> success s) \<and>
            (\<forall>q s. apply_path transitions q init_state = Some s \<and> success s \<longrightarrow>
               cost p \<le> cost q))"
  have run: "dijkstra_loop transitions success cost Map.empty
     (heappush [] \<lparr>node_state = init_state, node_path = [], node_cost = cost []\<rparr>) = Some (Inr p)"
    using assms(4) by (simp add: state_search_via_dijkstras_def Let_def)
  have "P (Inr p)"
  proof (rule dijkstra_loop_rule[where P = P
        and I = "inv_opt transitions init_state success cost", OF run])
    show "inv_opt transitions init_state success cost Map.empty
     (heappush [] \<lparr>node_state = init_state, node_path = [], node_cost = cost []\<rparr>)"
      by (rule inv_opt_init)
  next
    fix v f v' f'
    assume "inv_opt transitions init_state success cost v f"
      "loop_body transitions success cost v f = Inr (v', f')"
    then show "inv_opt transitions init_state success cost v' f'"
      by (rule inv_opt_step[OF assms(1,2,3)])
  next
    fix v f r
    assume a: "inv_opt transitions init_state success cost v f"
      "loop_body transitions success cost v f = Inl r"
    show "P r"
      unfolding P_def
    proof (intro allI impI)
      fix p' assume "r = Inr p'"
      then have "loop_body transitions success cost v f = Inl (Inr p')" using a(2) by simp
      from inv_opt_final[OF assms(2,3) a(1) this]
      show "(\<exists>s. apply_path transitions p' init_state = Some s \<and> success s) \<and>
            (\<forall>q s. apply_path transitions q init_state = Some s \<and> success s \<longrightarrow>
               cost p' \<le> cost q)" .
    qed
  qed
  then show ?thesis unfolding P_def by blast
qed

theorem optimal_for_isotone_cost_witness:
  "state_search_via_dijkstras [''0''] [(''a'', \<lambda>s. [''1'']), (''b'', \<lambda>s. [''2''])]
     (\<lambda>s. s = [''2'']) (\<lambda>p. int (length p)) = Some (Inr [''b'']) \<and>
   (\<exists>s. apply_path [(''a'', \<lambda>s. [''1'']), (''b'', \<lambda>s. [''2''])] [''b''] [''0''] = Some s \<and>
        s = [''2'']) \<and>
   \<not> (\<exists>q s. apply_path [(''a'', \<lambda>s. [''1'']), (''b'', \<lambda>s. [''2''])] q [''0''] = Some s \<and>
        s = [''2''] \<and> int (length q) < int (length [''b'']))"
proof -
  let ?T = "[(''a'', \<lambda>s::state. [''1'']), (''b'', \<lambda>s. [''2''])]"
  have h1: "distinct (map fst ?T)" by simp
  have h2: "\<forall>p t. (\<lambda>p::path. int (length p)) p \<le> (\<lambda>p. int (length p)) (p @ [t])" by simp
  have h3: "\<forall>p q t s. apply_path ?T p [''0''] = Some s \<and> apply_path ?T q [''0''] = Some s \<and>
      (\<lambda>p::path. int (length p)) p \<le> (\<lambda>p. int (length p)) q \<longrightarrow>
      (\<lambda>p. int (length p)) (p @ [t]) \<le> (\<lambda>p. int (length p)) (q @ [t])" by simp
  have h4: "state_search_via_dijkstras [''0''] ?T (\<lambda>s. s = [''2'']) (\<lambda>p. int (length p))
      = Some (Inr [''b''])"
    by (simp add: search_eval)
  from optimal_for_isotone_cost[of ?T "\<lambda>p. int (length p)" "[''0'']" "\<lambda>s. s = [''2'']" "[''b'']",
      OF h1 h2 h3 h4]
  have "(\<exists>s. apply_path ?T [''b''] [''0''] = Some s \<and> s = [''2'']) \<and>
        (\<forall>q s. apply_path ?T q [''0''] = Some s \<and> s = [''2''] \<longrightarrow>
           int (length [''b'']) \<le> int (length q))" .
  then show ?thesis using h4 by (auto simp: not_less)
qed

text \<open>
  C1 as stated fails: \<open>detour_cost\<close> is monotone under extension, the search returns
  \<open>[b, c]\<close> of cost 5, and \<open>[a, c]\<close> reaches the goal at cost 2. The state \<open>S\<close> is recorded
  with the cheaper path \<open>[b]\<close>, and the node for \<open>[a]\<close> is dropped when it is popped.
\<close>

theorem monotone_cost_not_optimal:
  "(\<forall>p t. detour_cost p \<le> detour_cost (p @ [t])) \<and>
   state_search_via_dijkstras [''A''] detour_transitions (\<lambda>s. s = [''G'']) detour_cost
     = Some (Inr [''b'', ''c'']) \<and>
   apply_path detour_transitions [''a'', ''c''] [''A''] = Some [''G''] \<and>
   detour_cost [''a'', ''c''] = 2 \<and> detour_cost [''b'', ''c''] = 5"
proof (intro conjI allI)
  fix p t
  show "detour_cost p \<le> detour_cost (p @ [t])"
    by (cases p) (simp_all add: detour_cost_def)
next
  show "state_search_via_dijkstras [''A''] detour_transitions (\<lambda>s. s = [''G'']) detour_cost
     = Some (Inr [''b'', ''c''])"
    by (simp add: search_eval detour_transitions_def detour_cost_def)
next
  show "apply_path detour_transitions [''a'', ''c''] [''A''] = Some [''G'']"
    by (simp add: detour_transitions_def)
qed (simp_all add: detour_cost_def)

lemmas qutrit_eval =
  x_transition_def x_body_def subswap_def subswap_body_def str_int_def str_nat.simps digit_char_def
  slice_to_def slice_from_def slice_def slice_bound_def index_def Let_def

section \<open>Decimal numerals\<close>

lemma digit_char_inj:
  assumes "a < 10" "b < 10" "digit_char a = digit_char b"
  shows "a = b"
proof -
  have "a \<in> {0, 1, 2, 3, 4, 5, 6, 7, 8, 9}" using assms(1) by auto
  moreover have "b \<in> {0, 1, 2, 3, 4, 5, 6, 7, 8, 9}" using assms(2) by auto
  ultimately show ?thesis using assms(3) by (auto simp: digit_char_def)
qed

lemma str_nat_digit: "n < 10 \<Longrightarrow> str_nat n = [digit_char n]"
  by (subst str_nat.simps) simp

lemma str_nat_nonempty: "str_nat n \<noteq> []"
  by (subst str_nat.simps) simp

lemma length_str_nat: "10 \<le> n \<Longrightarrow> 2 \<le> length (str_nat n)"
proof -
  assume "10 \<le> n"
  then have "str_nat n = str_nat (n div 10) @ [digit_char (n mod 10)]"
    by (subst str_nat.simps) simp
  moreover have "1 \<le> length (str_nat (n div 10))"
    using str_nat_nonempty[of "n div 10"] by (cases "str_nat (n div 10)") simp_all
  ultimately show ?thesis by simp
qed

lemma str_int_digit: "0 \<le> r \<Longrightarrow> r \<le> 9 \<Longrightarrow> str_int r = [digit_char (nat r)]"
  by (simp add: str_int_def str_nat_digit)

lemma length_str_int_big: "10 \<le> r \<Longrightarrow> 2 \<le> length (str_int r)"
  using length_str_nat[of "nat r"] by (simp add: str_int_def)

lemma length_str_int_neg: "r < 0 \<Longrightarrow> 2 \<le> length (str_int r)"
  using str_nat_nonempty[of "nat (- r)"] by (cases "str_nat (nat (- r))") (simp_all add: str_int_def)

lemma str_int_pair:
  assumes "r \<noteq> - 1" "r \<noteq> 9"
  shows "(\<exists>l h. str_int r = [l] \<and> str_int (r + 1) = [h] \<and> l \<noteq> h) \<or>
         (2 \<le> length (str_int r) \<and> 2 \<le> length (str_int (r + 1)))"
proof -
  consider "0 \<le> r \<and> r \<le> 8" | "r \<le> - 2" | "10 \<le> r" using assms by linarith
  then show ?thesis
  proof cases
    case 1
    then have "str_int r = [digit_char (nat r)]" "str_int (r + 1) = [digit_char (nat (r + 1))]"
      by (simp_all add: str_int_digit)
    moreover have "digit_char (nat r) \<noteq> digit_char (nat (r + 1))"
    proof
      assume "digit_char (nat r) = digit_char (nat (r + 1))"
      then have "nat r = nat (r + 1)" using 1 by (intro digit_char_inj) auto
      then show False using 1 by linarith
    qed
    ultimately show ?thesis by blast
  next
    case 2
    then show ?thesis using length_str_int_neg[of r] length_str_int_neg[of "r + 1"] by simp
  next
    case 3
    then show ?thesis using length_str_int_big[of r] length_str_int_big[of "r + 1"] by simp
  qed
qed

section \<open>The transition \<open>x\<close>\<close>

lemma x_body_nonneg:
  assumes "0 \<le> qubit"
  shows "x_body string qubit low high =
     (if nat qubit < length string
      then Inr (take (nat qubit) string @
                (if [string ! nat qubit] = high then low
                 else if [string ! nat qubit] = low then high else [string ! nat qubit]) @
                drop (Suc (nat qubit)) string)
      else Inl IndexError)"
proof (cases "nat qubit < length string")
  case True
  have 1: "slice_to string qubit = take (nat qubit) string"
    using assms True by (simp add: slice_to_def slice_bound_def)
  have 2: "slice_from string (qubit + 1) = drop (Suc (nat qubit)) string"
    using assms True by (simp add: slice_from_def slice_bound_def min_def nat_add_distrib)
  have 3: "index string qubit = Inr [string ! nat qubit]"
    using assms True by (simp add: index_def Let_def)
  show ?thesis using True by (simp add: x_body_def 1 2 3 Let_def)
next
  case False
  have "index string qubit = Inl IndexError"
    using assms False by (simp add: index_def Let_def)
  then show ?thesis using False by (simp add: x_body_def Let_def)
qed

lemma x_body_twice:
  assumes q: "0 \<le> qubit" "nat qubit < length string"
    and r: "(\<exists>l h. low = [l] \<and> high = [h] \<and> l \<noteq> h) \<or> (2 \<le> length low \<and> 2 \<le> length high)"
  shows "\<exists>new_string. x_body string qubit low high = Inr new_string \<and>
           length new_string = length string \<and>
           x_body new_string qubit low high = Inr string"
proof -
  let ?q = "nat qubit"
  from r show ?thesis
  proof
    assume "\<exists>l h. low = [l] \<and> high = [h] \<and> l \<noteq> h"
    then obtain l h where lh: "low = [l]" "high = [h]" "l \<noteq> h" by blast
    define sw where "sw = (\<lambda>c. if c = h then l else if c = l then h else c)"
    have sw: "sw (sw c) = c" for c using lh(3) by (simp add: sw_def)
    have b: "x_body s qubit low high = Inr (s[?q := sw (s ! ?q)])" if "?q < length s" for s
      using that by (simp add: x_body_nonneg[OF q(1)] lh sw_def upd_conv_take_nth_drop)
    have "x_body (string[?q := sw (string ! ?q)]) qubit low high = Inr string"
      using q(2) by (simp add: b sw)
    then show ?thesis using b[OF q(2)] by simp
  next
    assume a: "2 \<le> length low \<and> 2 \<le> length high"
    have "[c] \<noteq> low" "[c] \<noteq> high" for c :: char using a by auto
    then have "x_body string qubit low high = Inr string"
      using q(2) by (simp add: x_body_nonneg[OF q(1)] id_take_nth_drop[symmetric])
    then show ?thesis by simp
  qed
qed

lemma x_loop_twice:
  assumes q: "0 \<le> qubit"
    and r: "(\<exists>l h. low = [l] \<and> high = [h] \<and> l \<noteq> h) \<or> (2 \<le> length low \<and> 2 \<le> length high)"
  shows "\<forall>string \<in> set state. nat qubit < length string \<Longrightarrow>
         \<exists>out. x_loop state qubit low high acc = Inr (acc @ out) \<and>
           length out = length state \<and>
           (\<forall>i<length state. length (out ! i) = length (state ! i)) \<and>
           (\<forall>acc'. x_loop out qubit low high acc' = Inr (acc' @ state))"
proof (induction state arbitrary: acc)
  case Nil
  then show ?case by simp
next
  case (Cons string rest)
  from x_body_twice[OF q _ r, of string] Cons.prems obtain new_string where
    n: "x_body string qubit low high = Inr new_string" "length new_string = length string"
       "x_body new_string qubit low high = Inr string"
    by auto
  from Cons.IH[of "acc @ [new_string]"] Cons.prems obtain out where
    o: "x_loop rest qubit low high (acc @ [new_string]) = Inr ((acc @ [new_string]) @ out)"
       "length out = length rest"
       "\<forall>i<length rest. length (out ! i) = length (rest ! i)"
       "\<forall>acc'. x_loop out qubit low high acc' = Inr (acc' @ rest)"
    by auto
  have 1: "x_loop (string # rest) qubit low high acc = Inr (acc @ (new_string # out))"
    using n(1) o(1) by simp
  have 2: "length (new_string # out) = length (string # rest)" using o(2) by simp
  have 3: "\<forall>i<length (string # rest). length ((new_string # out) ! i) = length ((string # rest) ! i)"
    using n(2) o(3) by (auto simp: nth_Cons split: nat.splits)
  have 4: "\<forall>acc'. x_loop (new_string # out) qubit low high acc' = Inr (acc' @ (string # rest))"
    using n(3) o(4) by simp
  show ?case using 1 2 3 4 by blast
qed

lemma x_loop_short:
  assumes q: "0 \<le> qubit"
  shows "\<exists>string \<in> set state. \<not> nat qubit < length string \<Longrightarrow>
         x_loop state qubit low high acc = Inl IndexError"
proof (induction state arbitrary: acc)
  case Nil
  then show ?case by simp
next
  case (Cons string rest)
  show ?case
  proof (cases "nat qubit < length string")
    case True
    then have "\<exists>string \<in> set rest. \<not> nat qubit < length string" using Cons.prems by auto
    from Cons.IH[OF this] True show ?thesis by (simp add: x_body_nonneg[OF q])
  next
    case False
    then show ?thesis by (simp add: x_body_nonneg[OF q])
  qed
qed

section \<open>The transition \<open>subswap\<close>\<close>

lemma subswap_body_nonneg:
  assumes "0 \<le> low_qubit"
  shows "subswap_body string low_qubit low high =
     take (nat low_qubit) string @
     (if take 2 (drop (nat low_qubit) string) = low then high
      else if take 2 (drop (nat low_qubit) string) = high then low
      else take 2 (drop (nat low_qubit) string)) @
     drop (Suc (Suc (nat low_qubit))) string"
proof -
  have 1: "slice_to string low_qubit = take (nat low_qubit) string"
    using assms by (simp add: slice_to_def slice_bound_def min_def)
  have 2: "slice_from string (low_qubit + 2) = drop (Suc (Suc (nat low_qubit))) string"
    using assms by (simp add: slice_from_def slice_bound_def min_def nat_add_distrib)
  have 3: "slice string low_qubit (low_qubit + 2) = take 2 (drop (nat low_qubit) string)"
    using assms by (auto simp: slice_def slice_bound_def Let_def min_def nat_add_distrib)
  show ?thesis by (simp add: subswap_body_def 1 2 3 Let_def)
qed

lemma replace_middle:
  assumes "length mid' = 2" "take 2 (drop k s) = mid" "length mid = 2"
  shows "take k (take k s @ mid' @ drop (Suc (Suc k)) s) = take k s"
    and "take 2 (drop k (take k s @ mid' @ drop (Suc (Suc k)) s)) = mid'"
    and "drop (Suc (Suc k)) (take k s @ mid' @ drop (Suc (Suc k)) s) = drop (Suc (Suc k)) s"
    and "length (take k s @ mid' @ drop (Suc (Suc k)) s) = length s"
proof -
  have "length (take 2 (drop k s)) = 2" using assms(2,3) by simp
  then have len: "Suc (Suc k) \<le> length s" by (simp split: if_splits)
  then have lk: "length (take k s) = k" by simp
  show "take k (take k s @ mid' @ drop (Suc (Suc k)) s) = take k s" using lk by simp
  show "take 2 (drop k (take k s @ mid' @ drop (Suc (Suc k)) s)) = mid'"
    using lk assms(1) by simp
  show "drop (Suc (Suc k)) (take k s @ mid' @ drop (Suc (Suc k)) s) = drop (Suc (Suc k)) s"
    using lk assms(1) by (simp add: drop_append)
  show "length (take k s @ mid' @ drop (Suc (Suc k)) s) = length s"
    using len assms(1) by simp
qed

lemma middle_id: "take k s @ take 2 (drop k s) @ drop (Suc (Suc k)) s = s"
proof -
  have "take 2 (drop k s) @ drop 2 (drop k s) = drop k s" by (rule append_take_drop_id)
  then have "take 2 (drop k s) @ drop (Suc (Suc k)) s = drop k s" by simp
  then show ?thesis by simp
qed

lemma subswap_body_twice:
  assumes q: "0 \<le> low_qubit"
    and r: "(length low = 2 \<and> length high = 2 \<and> low \<noteq> high) \<or>
            (2 < length low \<and> 2 < length high)"
  shows "length (subswap_body string low_qubit low high) = length string \<and>
         subswap_body (subswap_body string low_qubit low high) low_qubit low high = string"
proof -
  let ?k = "nat low_qubit"
  let ?mid = "take 2 (drop ?k string)"
  note b = subswap_body_nonneg[OF q]
  consider (low) "?mid = low" | (high) "?mid \<noteq> low" "?mid = high"
    | (none) "?mid \<noteq> low" "?mid \<noteq> high" by blast
  then show ?thesis
  proof cases
    case low
    then have l2: "length low = 2" "length high = 2" "low \<noteq> high"
      using r by (auto simp: min_def split: if_splits)
    define new_string where "new_string = take ?k string @ high @ drop (Suc (Suc ?k)) string"
    have s1: "subswap_body string low_qubit low high = new_string"
      using low by (simp add: b new_string_def)
    note m = replace_middle[OF l2(2) low l2(1), folded new_string_def]
    have "subswap_body new_string low_qubit low high = take ?k string @ low @ drop (Suc (Suc ?k)) string"
      using l2(3) by (simp add: b m)
    then have "subswap_body new_string low_qubit low high = string"
      using middle_id[of ?k string] low by simp
    then show ?thesis using m(4) by (simp add: s1)
  next
    case high
    then have l2: "length low = 2" "length high = 2" "low \<noteq> high"
      using r by (auto simp: min_def split: if_splits)
    define new_string where "new_string = take ?k string @ low @ drop (Suc (Suc ?k)) string"
    have s1: "subswap_body string low_qubit low high = new_string"
      using high by (simp add: b new_string_def)
    note m = replace_middle[OF l2(1) high(2) l2(2), folded new_string_def]
    have "subswap_body new_string low_qubit low high = take ?k string @ high @ drop (Suc (Suc ?k)) string"
      by (simp add: b m)
    then have "subswap_body new_string low_qubit low high = string"
      using middle_id[of ?k string] high(2) by simp
    then show ?thesis using m(4) by (simp add: s1)
  next
    case none
    then have "subswap_body string low_qubit low high = string"
      using middle_id[of ?k string] by (simp add: b)
    then show ?thesis by simp
  qed
qed

lemma subswap_loop_twice:
  assumes q: "0 \<le> low_qubit"
    and r: "(length low = 2 \<and> length high = 2 \<and> low \<noteq> high) \<or>
            (2 < length low \<and> 2 < length high)"
  shows "\<exists>out. subswap_loop state low_qubit low high acc = acc @ out \<and>
           length out = length state \<and>
           (\<forall>i<length state. length (out ! i) = length (state ! i)) \<and>
           (\<forall>acc'. subswap_loop out low_qubit low high acc' = acc' @ state)"
proof (induction state arbitrary: acc)
  case Nil
  then show ?case by simp
next
  case (Cons string rest)
  let ?n = "subswap_body string low_qubit low high"
  note n = subswap_body_twice[OF q r, of string]
  from Cons.IH[of "acc @ [?n]"] obtain out where
    o: "subswap_loop rest low_qubit low high (acc @ [?n]) = (acc @ [?n]) @ out"
       "length out = length rest"
       "\<forall>i<length rest. length (out ! i) = length (rest ! i)"
       "\<forall>acc'. subswap_loop out low_qubit low high acc' = acc' @ rest"
    by auto
  have 1: "subswap_loop (string # rest) low_qubit low high acc = acc @ (?n # out)"
    using o(1) by simp
  have 2: "length (?n # out) = length (string # rest)" using o(2) by simp
  have 3: "\<forall>i<length (string # rest). length ((?n # out) ! i) = length ((string # rest) ! i)"
    using n o(3) by (auto simp: nth_Cons split: nat.splits)
  have 4: "\<forall>acc'. subswap_loop (?n # out) low_qubit low high acc' = acc' @ (string # rest)"
    using n o(4) by simp
  show ?case using 1 2 3 4 by blast
qed

lemma str_int_double:
  assumes "r \<noteq> - 1" "r \<noteq> 9"
  shows "(length (str_int r @ str_int r) = 2 \<and> length (str_int (r + 1) @ str_int (r + 1)) = 2 \<and>
          str_int r @ str_int r \<noteq> str_int (r + 1) @ str_int (r + 1)) \<or>
         (2 < length (str_int r @ str_int r) \<and> 2 < length (str_int (r + 1) @ str_int (r + 1)))"
  using str_int_pair[OF assms] by auto

section \<open>Self-inverse transitions\<close>

text \<open>
  C8, as amended. For a position that is not negative and a \<open>low_radix\<close> other than \<open>-1\<close>
  and \<open>9\<close>: on a state whose basis strings all have position \<open>qubit\<close>, \<open>x\<close> returns a
  state on which \<open>x\<close> with the same arguments returns the original state; and \<open>subswap\<close>
  applied twice with the same arguments returns the original state, for every state.
\<close>

theorem transitions_self_inverse:
  assumes "0 \<le> qubit" and "0 \<le> low_qubit" and "low_radix \<noteq> - 1" and "low_radix \<noteq> 9"
  shows "((\<forall>string \<in> set state. nat qubit < length string) \<longrightarrow>
            (\<exists>new_state. x_transition state qubit low_radix = Inr new_state \<and>
               x_transition new_state qubit low_radix = Inr state)) \<and>
         subswap (subswap state low_qubit low_radix) low_qubit low_radix = state"
proof
  show "(\<forall>string \<in> set state. nat qubit < length string) \<longrightarrow>
            (\<exists>new_state. x_transition state qubit low_radix = Inr new_state \<and>
               x_transition new_state qubit low_radix = Inr state)"
  proof
    assume "\<forall>string \<in> set state. nat qubit < length string"
    from x_loop_twice[OF assms(1) str_int_pair[OF assms(3,4)] this, of "[]"]
    show "\<exists>new_state. x_transition state qubit low_radix = Inr new_state \<and>
               x_transition new_state qubit low_radix = Inr state"
      by (auto simp: x_transition_def Let_def)
  qed
  from subswap_loop_twice[OF assms(2) str_int_double[OF assms(3,4)], of state "[]"]
  show "subswap (subswap state low_qubit low_radix) low_qubit low_radix = state"
    by (auto simp: subswap_def Let_def)
qed

theorem transitions_self_inverse_witness:
  "x_transition [''000'', ''110'', ''220''] 2 0 = Inr [''001'', ''111'', ''221''] \<and>
   x_transition [''001'', ''111'', ''221''] 2 0 = Inr [''000'', ''110'', ''220''] \<and>
   subswap (subswap [''000'', ''110'', ''220''] 1 0) 1 0 = [''000'', ''110'', ''220'']"
proof -
  have e: "x_transition [''000'', ''110'', ''220''] 2 0 = Inr [''001'', ''111'', ''221'']"
    by (simp add: qutrit_eval)
  have "\<forall>string \<in> set [''000'', ''110'', ''220'']. nat 2 < length string" by simp
  with transitions_self_inverse[of 2 1 0 "[''000'', ''110'', ''220'']"]
  have "(\<exists>new_state. x_transition [''000'', ''110'', ''220''] 2 0 = Inr new_state \<and>
               x_transition new_state 2 0 = Inr [''000'', ''110'', ''220'']) \<and>
        subswap (subswap [''000'', ''110'', ''220''] 1 0) 1 0 = [''000'', ''110'', ''220'']"
    by simp
  then show ?thesis using e by auto
qed

text \<open>
  C8 as stated fails where a level has no one-character numeral: with \<open>low_radix = 9\<close>
  the digit \<open>9\<close> becomes the two characters \<open>10\<close>, which a second application leaves
  alone. A position of \<open>-1\<close>, which Python reads as the last one, does not give the
  original state back either, since \<open>string[qubit+1:]\<close> is then the whole string.
\<close>

theorem transitions_not_self_inverse:
  "x_transition [''9''] 0 9 = Inr [''10''] \<and> x_transition [''10''] 0 9 = Inr [''10''] \<and>
   subswap [''99''] 0 9 = [''1010''] \<and> subswap [''1010''] 0 9 = [''1010''] \<and>
   x_transition [''01''] (- 1) 0 = Inr [''0001''] \<and> x_transition [''0001''] (- 1) 0 = Inr [''00000001'']"
  by (simp add: qutrit_eval)

section \<open>Shape of the state\<close>

text \<open>
  C9, as amended. For a position that is not negative and a \<open>low_radix\<close> other than \<open>-1\<close>
  and \<open>9\<close>: \<open>subswap\<close> returns as many basis strings as it is given, each as long as
  the string in its place; \<open>x\<close> does so when every basis string has position \<open>qubit\<close>,
  and raises \<open>IndexError\<close> otherwise.
\<close>

theorem transitions_keep_shape:
  assumes "0 \<le> qubit" and "0 \<le> low_qubit" and "low_radix \<noteq> - 1" and "low_radix \<noteq> 9"
  shows "(if \<forall>string \<in> set state. nat qubit < length string
          then \<exists>new_state. x_transition state qubit low_radix = Inr new_state \<and>
                 length new_state = length state \<and>
                 (\<forall>i<length state. length (new_state ! i) = length (state ! i))
          else x_transition state qubit low_radix = Inl IndexError) \<and>
         length (subswap state low_qubit low_radix) = length state \<and>
         (\<forall>i<length state. length (subswap state low_qubit low_radix ! i) = length (state ! i))"
proof (intro conjI)
  show "if \<forall>string \<in> set state. nat qubit < length string
          then \<exists>new_state. x_transition state qubit low_radix = Inr new_state \<and>
                 length new_state = length state \<and>
                 (\<forall>i<length state. length (new_state ! i) = length (state ! i))
          else x_transition state qubit low_radix = Inl IndexError"
  proof (cases "\<forall>string \<in> set state. nat qubit < length string")
    case True
    from x_loop_twice[OF assms(1) str_int_pair[OF assms(3,4)] True, of "[]"]
    show ?thesis using True by (auto simp: x_transition_def Let_def)
  next
    case False
    then have "\<exists>string \<in> set state. \<not> nat qubit < length string" by blast
    from x_loop_short[OF assms(1) this] show ?thesis using False by (simp add: x_transition_def Let_def)
  qed
  from subswap_loop_twice[OF assms(2) str_int_double[OF assms(3,4)], of state "[]"]
  show "length (subswap state low_qubit low_radix) = length state"
    and "\<forall>i<length state. length (subswap state low_qubit low_radix ! i) = length (state ! i)"
    by (auto simp: subswap_def Let_def)
qed

theorem transitions_keep_shape_witness:
  "x_transition [''000'', ''11''] 2 0 = Inl IndexError \<and>
   (\<exists>new_state. x_transition [''000'', ''11''] 1 0 = Inr new_state \<and>
      length new_state = length [''000'', ''11''] \<and>
      length (new_state ! 0) = 3 \<and> length (new_state ! 1) = 2) \<and>
   length (subswap [''000'', ''11''] 1 0) = length [''000'', ''11''] \<and>
   length (subswap [''000'', ''11''] 1 0 ! 0) = 3 \<and>
   length (subswap [''000'', ''11''] 1 0 ! 1) = 2"
proof -
  from transitions_keep_shape[of 2 1 0 "[''000'', ''11'']"]
  have a: "x_transition [''000'', ''11''] 2 0 = Inl IndexError" by simp
  from transitions_keep_shape[of 1 1 0 "[''000'', ''11'']"]
  have b: "(\<exists>new_state. x_transition [''000'', ''11''] 1 0 = Inr new_state \<and>
      length new_state = length [''000'', ''11''] \<and>
      (\<forall>i<length [''000'', ''11'']. length (new_state ! i) = length ([''000'', ''11''] ! i))) \<and>
     length (subswap [''000'', ''11''] 1 0) = length [''000'', ''11''] \<and>
     (\<forall>i<length [''000'', ''11'']. length (subswap [''000'', ''11''] 1 0 ! i) =
         length ([''000'', ''11''] ! i))"
    by simp
  then obtain new_state where n: "x_transition [''000'', ''11''] 1 0 = Inr new_state"
      "length new_state = length [''000'', ''11'']"
      "\<forall>i<length [''000'', ''11'']. length (new_state ! i) = length ([''000'', ''11''] ! i)"
    by blast
  from n(3) have "length (new_state ! 0) = 3" "length (new_state ! 1) = 2" by simp_all
  moreover from b have "length (subswap [''000'', ''11''] 1 0 ! 0) = 3"
    "length (subswap [''000'', ''11''] 1 0 ! 1) = 2" by simp_all
  ultimately show ?thesis using a b n(1,2) by simp
qed

text \<open>
  C9 as stated fails: \<open>x\<close> has no output where a basis string has no position \<open>qubit\<close>,
  and the lengths change with \<open>low_radix = 9\<close> or with a position of \<open>-1\<close>.
\<close>

theorem transitions_change_shape:
  "x_transition [''0''] 1 0 = Inl IndexError \<and>
   x_transition [''9''] 0 9 = Inr [''10''] \<and> length ''10'' \<noteq> length ''9'' \<and>
   subswap [''99''] 0 9 = [''1010''] \<and> length ''1010'' \<noteq> length ''99'' \<and>
   x_transition [''01''] (- 1) 0 = Inr [''0001''] \<and>
   subswap [''abc''] (- 1) 0 = [''abbc'']"
  by (simp add: qutrit_eval)

section \<open>The search with callbacks that raise\<close>




lemma dijkstra_loop_raising_stop:
  "loop_body_raising transitions success cost visited frontier = Inl r \<Longrightarrow>
   dijkstra_loop_raising transitions success cost visited frontier = Some r"
  by (subst dijkstra_loop_raising.simps) simp

lemma dijkstra_loop_raising_pass:
  "loop_body_raising transitions success cost visited frontier = Inr (visited', frontier') \<Longrightarrow>
   dijkstra_loop_raising transitions success cost visited frontier =
   dijkstra_loop_raising transitions success cost visited' frontier'"
  by (subst dijkstra_loop_raising.simps) simp

lemma dijkstra_loop_raising_rule:
  assumes run: "dijkstra_loop_raising transitions success cost visited frontier = Some r"
    and init: "I visited frontier"
    and step: "\<And>v f v' f'. I v f \<Longrightarrow>
                 loop_body_raising transitions success cost v f = Inr (v', f') \<Longrightarrow> I v' f'"
    and final: "\<And>v f r. I v f \<Longrightarrow>
                 loop_body_raising transitions success cost v f = Inl r \<Longrightarrow> P r"
  shows "P r"
proof -
  let ?Q = "\<lambda>T s c v f y. T = transitions \<and> s = success \<and> c = cost \<and> I v f \<longrightarrow> P y"
  have "?Q transitions success cost visited frontier r"
  proof (rule dijkstra_loop_raising.raw_induct[where P = ?Q, OF _ run])
    fix dl T s c v f y
    assume IH: "\<And>T s c v f y. dl T s c v f = Some y \<Longrightarrow> ?Q T s c v f y"
      and body: "(case loop_body_raising T s c v f of Inl result \<Rightarrow> Some result
                  | Inr (visited, frontier) \<Rightarrow> dl T s c visited frontier) = Some y"
    show "?Q T s c v f y"
    proof (intro impI, elim conjE)
      assume eq: "T = transitions" "s = success" "c = cost" and inv: "I v f"
      show "P y"
      proof (cases "loop_body_raising T s c v f")
        case (Inl res)
        then show ?thesis using body final[OF inv] eq by simp
      next
        case (Inr vf)
        obtain v' f' where vf: "vf = (v', f')" by (cases vf)
        have "dl T s c v' f' = Some y" using body Inr vf by simp
        moreover have "I v' f'" using step[OF inv] Inr vf eq by simp
        ultimately show ?thesis using IH eq by blast
      qed
    qed
  qed
  then show ?thesis using init by blast
qed
















text \<open>
  With callbacks that never raise, the search with raising callbacks is the search of the
  sections above.
\<close>

lemma expand_raising_never:
  "expand_raising (map (\<lambda>(name, transition). (name, \<lambda>s. Inr (transition s))) transitions)
     (\<lambda>p. Inr (cost p)) visited node frontier =
   Inr (expand transitions cost visited node frontier)"
proof (induction transitions arbitrary: frontier)
  case Nil
  then show ?case by simp
next
  case (Cons a transitions)
  obtain name transition where a: "a = (name, transition)" by (cases a)
  show ?case unfolding a by (simp add: Let_def Cons.IH)
qed

lemma loop_body_raising_never:
  "loop_body_raising (map (\<lambda>(name, transition). (name, \<lambda>s. Inr (transition s))) transitions)
     (\<lambda>s. Inr (success s)) (\<lambda>p. Inr (cost p)) visited frontier =
   loop_body transitions success cost visited frontier"
  unfolding loop_body_raising_def loop_body_def
  by (simp add: Let_def expand_raising_never split: sum.splits prod.splits)

lemma dijkstra_loop_raising_never:
  "dijkstra_loop_raising (map (\<lambda>(name, transition). (name, \<lambda>s. Inr (transition s))) transitions)
     (\<lambda>s. Inr (success s)) (\<lambda>p. Inr (cost p)) visited frontier =
   dijkstra_loop transitions success cost visited frontier"
proof -
  let ?T = "map (\<lambda>(name, transition). (name, \<lambda>s. Inr (transition s))) transitions"
  let ?s = "\<lambda>s. Inr (success s) :: error + bool"
  let ?c = "\<lambda>p. Inr (cost p) :: error + int"
  let ?dr = "dijkstra_loop_raising ?T ?s ?c"
  let ?d = "dijkstra_loop transitions success cost"
  have 1: "?d visited frontier = Some r" if run: "?dr visited frontier = Some r" for r
  proof -
    define P :: "error + path \<Rightarrow> bool" where "P y = (?d visited frontier = Some y)" for y
    define I where "I v f = (?d v f = ?d visited frontier)" for v f
    have "P r"
    proof (rule dijkstra_loop_raising_rule[where P = P and I = I, OF run])
      show "I visited frontier" by (simp add: I_def)
    next
      fix v f v' f'
      assume "I v f" and "loop_body_raising ?T ?s ?c v f = Inr (v', f')"
      then show "I v' f'"
        unfolding I_def loop_body_raising_never using dijkstra_loop_pass by metis
    next
      fix v f y
      assume "I v f" and "loop_body_raising ?T ?s ?c v f = Inl y"
      then show "P y"
        unfolding I_def P_def loop_body_raising_never using dijkstra_loop_stop by metis
    qed
    then show ?thesis by (simp add: P_def)
  qed
  have 2: "?dr visited frontier = Some r" if run: "?d visited frontier = Some r" for r
  proof -
    define P :: "error + path \<Rightarrow> bool" where "P y = (?dr visited frontier = Some y)" for y
    define I where "I v f = (?dr v f = ?dr visited frontier)" for v f
    have "P r"
    proof (rule dijkstra_loop_rule[where P = P and I = I, OF run])
      show "I visited frontier" by (simp add: I_def)
    next
      fix v f v' f'
      assume "I v f" and "loop_body transitions success cost v f = Inr (v', f')"
      then show "I v' f'"
        unfolding I_def loop_body_raising_never[symmetric]
        using dijkstra_loop_raising_pass by metis
    next
      fix v f y
      assume "I v f" and "loop_body transitions success cost v f = Inl y"
      then show "P y"
        unfolding I_def P_def loop_body_raising_never[symmetric]
        using dijkstra_loop_raising_stop by metis
    qed
    then show ?thesis by (simp add: P_def)
  qed
  show ?thesis
  proof (cases "?dr visited frontier")
    case None
    show ?thesis
    proof (cases "?d visited frontier")
      case None
      then show ?thesis using \<open>?dr visited frontier = None\<close> by simp
    next
      case (Some r)
      from 2[OF this] show ?thesis using \<open>?dr visited frontier = None\<close> by simp
    qed
  next
    case (Some r)
    from 1[OF this] show ?thesis using Some by simp
  qed
qed

lemma search_raising_never:
  "state_search_via_dijkstras_raising init_state
     (map (\<lambda>(name, transition). (name, \<lambda>s. Inr (transition s))) transitions)
     (\<lambda>s. Inr (success s)) (\<lambda>p. Inr (cost p)) =
   state_search_via_dijkstras init_state transitions success cost"
  unfolding state_search_via_dijkstras_raising_def state_search_via_dijkstras_def
  by (simp add: Let_def dijkstra_loop_raising_never)

section \<open>The no-solution outcome and the callbacks' exceptions\<close>




end
